theory Spec2Isabelle
  imports Main "HOL-Library.Word"
begin

section \<open>Basic types\<close>

text \<open>
  \<^verbatim>\<open>plumbing.Hash\<close> is a 20-byte array, read here as one 160-bit word;
  \<^verbatim>\<open>plumbing.ZeroHash\<close> is the all-zero array. \<^verbatim>\<open>time.Time\<close> is an
  instant, modelled as an integer count of clock ticks; \<^verbatim>\<open>Before\<close> is \<open><\<close>.
  A Go \<^verbatim>\<open>int\<close> that holds a slice position is an \<open>int\<close>: it is bounded by the
  length of a slice, so wrap-around never shows.
\<close>

type_synonym Hash = "160 word"

definition ZeroHash :: Hash where
  "ZeroHash = 0"

type_synonym Time = int

text \<open>
  The error values the code returns or compares against (\<^verbatim>\<open>plumbing.ErrObjectNotFound\<close>,
  \<^verbatim>\<open>object.ErrParentNotFound\<close>, \<^verbatim>\<open>object.ErrDirectoryNotFound\<close>, and one value for
  every failure to read or decode an object), and the outcome of a call: a value, a
  returned error, or a run-time panic (an out-of-range slice read).
\<close>

datatype error =
    ErrObjectNotFound
  | ErrParentNotFound
  | ErrDirectoryNotFound
  | ErrDecode

datatype 'a result = Ok 'a | Err error | Panic

section \<open>The in-memory commit graph (package commitgraph)\<close>

text \<open>
  \<^verbatim>\<open>commitgraph.Node\<close>: its declaration is not among the sources; the fields are the
  ones the code reads and writes.
\<close>

record Node =
  TreeHash :: Hash
  ParentHashes :: "Hash list"
  ParentIndexes :: "int list"
  When :: Time

record MemoryIndex =
  commitData :: "Node list"
  indexMap :: "Hash \<rightharpoonup> int"

definition NewMemoryIndex :: MemoryIndex where
  "NewMemoryIndex = \<lparr>commitData = [], indexMap = Map.empty\<rparr>"

definition GetIndexByHash :: "MemoryIndex \<Rightarrow> Hash \<Rightarrow> int result" where
  "GetIndexByHash mi h =
     (case indexMap mi h of
        Some i \<Rightarrow> Ok i
      | None \<Rightarrow> Err ErrObjectNotFound)"

text \<open>
  \<^verbatim>\<open>GetNodeByIndex\<close> tests the upper bound only; the slice read
  \<^verbatim>\<open>mi.commitData[i]\<close> with a negative \<^verbatim>\<open>i\<close> is a run-time panic in Go.
\<close>

definition GetNodeByIndex :: "MemoryIndex \<Rightarrow> int \<Rightarrow> Node result" where
  "GetNodeByIndex mi i =
     (if i \<ge> int (length (commitData mi)) then Err ErrObjectNotFound
      else if i < 0 then Panic
      else Ok (commitData mi ! nat i))"

text \<open>
  The loop of \<^verbatim>\<open>Add\<close> that fills \<^verbatim>\<open>parentIndexes\<close>: one lookup per parent hash, in
  order, returning at the first lookup that fails.
\<close>

fun resolveParents :: "MemoryIndex \<Rightarrow> Hash list \<Rightarrow> int list result" where
  "resolveParents mi [] = Ok []"
| "resolveParents mi (parentHash # rest) =
     (case GetIndexByHash mi parentHash of
        Ok i \<Rightarrow>
          (case resolveParents mi rest of
             Ok idxs \<Rightarrow> Ok (i # idxs)
           | Err e \<Rightarrow> Err e
           | Panic \<Rightarrow> Panic)
      | Err e \<Rightarrow> Err e
      | Panic \<Rightarrow> Panic)"

text \<open>
  \<^verbatim>\<open>Add\<close> mutates both the index and the node it is given (through the pointer);
  the model returns both. On an error neither has been touched.
\<close>

definition Add :: "MemoryIndex \<Rightarrow> Hash \<Rightarrow> Node \<Rightarrow> (MemoryIndex \<times> Node) result" where
  "Add mi hash node =
     (case resolveParents mi (ParentHashes node) of
        Ok parentIndexes \<Rightarrow>
          (let node' = node\<lparr>ParentIndexes := parentIndexes\<rparr>
           in Ok (\<lparr>commitData = commitData mi @ [node'],
                   indexMap = (indexMap mi)(hash \<mapsto> int (length (commitData mi)))\<rparr>,
                  node'))
      | Err e \<Rightarrow> Err e
      | Panic \<Rightarrow> Panic)"

text \<open>A sequence of \<^verbatim>\<open>Add\<close> calls, stopping at the first one that fails.\<close>

fun AddAll :: "MemoryIndex \<Rightarrow> (Hash \<times> Node) list \<Rightarrow> MemoryIndex result" where
  "AddAll mi [] = Ok mi"
| "AddAll mi ((hash, node) # rest) =
     (case Add mi hash node of
        Ok (mi', _) \<Rightarrow> AddAll mi' rest
      | Err e \<Rightarrow> Err e
      | Panic \<Rightarrow> Panic)"

definition positionAfter :: "MemoryIndex \<Rightarrow> (Hash \<times> Node) list \<Rightarrow> Hash \<Rightarrow> int result" where
  "positionAfter mi adds h =
     (case AddAll mi adds of
        Ok mi' \<Rightarrow> GetIndexByHash mi' h
      | Err e \<Rightarrow> Err e
      | Panic \<Rightarrow> Panic)"

definition rootNode :: "Hash \<Rightarrow> Time \<Rightarrow> Node" where
  "rootNode t w = \<lparr>TreeHash = t, ParentHashes = [], ParentIndexes = [], When = w\<rparr>"

definition childNode :: "Hash \<Rightarrow> Hash list \<Rightarrow> Time \<Rightarrow> Node" where
  "childNode t ps w = \<lparr>TreeHash = t, ParentHashes = ps, ParentIndexes = [], When = w\<rparr>"

section \<open>The object store and trees\<close>

text \<open>
  A fully decoded commit: the fields of \<^verbatim>\<open>object.Commit\<close> that the code reads
  (\<^verbatim>\<open>Hash\<close>, \<^verbatim>\<open>TreeHash\<close>, \<^verbatim>\<open>ParentHashes\<close>, \<^verbatim>\<open>Committer.When\<close>).
\<close>

record Commit =
  Commit_Hash :: Hash
  Commit_TreeHash :: Hash
  Commit_ParentHashes :: "Hash list"
  Commit_When :: Time

text \<open>
  Modelled from the spec: \<^verbatim>\<open>object.Tree\<close>, whose file is not among the sources. The
  spec gives a tree a path-qualified lookup, \<^verbatim>\<open>tree.FindEntry(path)\<close>, that yields the
  entry (here its hash) or NotFound, and the traversal of nested sub-trees by path,
  \<^verbatim>\<open>tree.Tree(path)\<close>, that yields the sub-tree or an error
  (\<^verbatim>\<open>ErrDirectoryNotFound\<close> when there is none).
\<close>

datatype Tree =
  Tree (Tree_Hash: Hash)
       (Tree_FindEntry: "string \<Rightarrow> Hash option")
       (Tree_Tree: "string \<Rightarrow> Tree result")

text \<open>
  Modelled from the spec: the object store (\<^verbatim>\<open>storer.EncodedObjectStorer\<close> with
  \<^verbatim>\<open>GetCommit\<close> and \<^verbatim>\<open>GetTree\<close>), consumed as "get commit by hash" and "get tree
  by hash". An object is absent (NotFound), present but unreadable (a decode error), or
  present.
\<close>

datatype 'a stored = Missing | Undecodable | Stored 'a

record EncodedObjectStorer =
  commitObjects :: "Hash \<Rightarrow> Commit stored"
  treeObjects :: "Hash \<Rightarrow> Tree stored"

definition GetCommit :: "EncodedObjectStorer \<Rightarrow> Hash \<Rightarrow> Commit result" where
  "GetCommit s h =
     (case commitObjects s h of
        Missing \<Rightarrow> Err ErrObjectNotFound
      | Undecodable \<Rightarrow> Err ErrDecode
      | Stored c \<Rightarrow> Ok c)"

definition GetTree :: "EncodedObjectStorer \<Rightarrow> Hash \<Rightarrow> Tree result" where
  "GetTree s h =
     (case treeObjects s h of
        Missing \<Rightarrow> Err ErrObjectNotFound
      | Undecodable \<Rightarrow> Err ErrDecode
      | Stored t \<Rightarrow> Ok t)"

section \<open>Commit nodes and the graph-backed walker (package object)\<close>

record graphCommitNode =
  gcn_hash :: Hash
  gcn_index :: int
  gcn_node :: Node

text \<open>
  \<^verbatim>\<open>CommitNode\<close> is an interface with two implementations, told apart in the code by a
  type assertion. The pointers to the walker and to the store that the Go values carry
  are passed to the functions explicitly.
\<close>

datatype CommitNode =
    GraphNode graphCommitNode
  | FullCommit Commit

text \<open>
  The three methods of \<^verbatim>\<open>CommitNode\<close>. For the index-backed node they are in the
  sources. Modelled from the spec: the methods of \<^verbatim>\<open>object.Commit\<close>, which are not; the
  spec has both variants expose the identity hash, the commit time and the lazily resolved
  tree, the object-backed one from the decoded commit (its hash, its committer time, the
  tree that its tree hash names in the store).
\<close>

definition ID :: "CommitNode \<Rightarrow> Hash" where
  "ID c = (case c of GraphNode g \<Rightarrow> gcn_hash g | FullCommit co \<Rightarrow> Commit_Hash co)"

definition CommitTime :: "CommitNode \<Rightarrow> Time" where
  "CommitTime c = (case c of GraphNode g \<Rightarrow> When (gcn_node g) | FullCommit co \<Rightarrow> Commit_When co)"

definition CommitNode_Tree :: "EncodedObjectStorer \<Rightarrow> CommitNode \<Rightarrow> Tree result" where
  "CommitNode_Tree s c =
     (case c of
        GraphNode g \<Rightarrow> GetTree s (TreeHash (gcn_node g))
      | FullCommit co \<Rightarrow> GetTree s (Commit_TreeHash co))"

text \<open>
  \<^verbatim>\<open>commitgraph.Index\<close> is the interface the walker holds; \<^verbatim>\<open>MemoryIndex\<close> implements
  it.
\<close>

record Index =
  Index_GetIndexByHash :: "Hash \<Rightarrow> int result"
  Index_GetNodeByIndex :: "int \<Rightarrow> Node result"

definition MemoryIndex_Index :: "MemoryIndex \<Rightarrow> Index" where
  "MemoryIndex_Index mi =
     \<lparr>Index_GetIndexByHash = GetIndexByHash mi, Index_GetNodeByIndex = GetNodeByIndex mi\<rparr>"

record graphCommitNodeIndex =
  commitGraph :: Index
  gci_s :: EncodedObjectStorer

text \<open>A slice read \<^verbatim>\<open>xs[i]\<close>: a panic outside \<open>0 \<le> i < len(xs)\<close>.\<close>

definition sliceAt :: "'a list \<Rightarrow> int \<Rightarrow> 'a result" where
  "sliceAt xs i = (if 0 \<le> i \<and> i < int (length xs) then Ok (xs ! nat i) else Panic)"

text \<open>
  The methods of the graph-backed walker. \<^verbatim>\<open>co.NumParents()\<close> of a decoded commit is the
  length of its \<^verbatim>\<open>ParentHashes\<close>.
\<close>

definition graph_NumParents :: "graphCommitNodeIndex \<Rightarrow> CommitNode \<Rightarrow> int" where
  "graph_NumParents gci c =
     (case c of
        GraphNode cgn \<Rightarrow> int (length (ParentIndexes (gcn_node cgn)))
      | FullCommit co \<Rightarrow> int (length (Commit_ParentHashes co)))"

definition graph_ParentNode :: "graphCommitNodeIndex \<Rightarrow> CommitNode \<Rightarrow> int \<Rightarrow> CommitNode result" where
  "graph_ParentNode gci c i =
     (case c of
        GraphNode cgn \<Rightarrow>
          if length (ParentIndexes (gcn_node cgn)) = 0 \<or>
             i \<ge> int (length (ParentIndexes (gcn_node cgn)))
          then Err ErrParentNotFound
          else
            (case sliceAt (ParentIndexes (gcn_node cgn)) i of
               Ok parentIndex \<Rightarrow>
                 (case Index_GetNodeByIndex (commitGraph gci) parentIndex of
                    Ok parent \<Rightarrow>
                      (case sliceAt (ParentHashes (gcn_node cgn)) i of
                         Ok parentHash \<Rightarrow>
                           Ok (GraphNode \<lparr>gcn_hash = parentHash, gcn_index = parentIndex,
                                           gcn_node = parent\<rparr>)
                       | Err e \<Rightarrow> Err e
                       | Panic \<Rightarrow> Panic)
                  | Err e \<Rightarrow> Err e
                  | Panic \<Rightarrow> Panic)
             | Err e \<Rightarrow> Err e
             | Panic \<Rightarrow> Panic)
      | FullCommit co \<Rightarrow>
          if length (Commit_ParentHashes co) = 0 \<or> i \<ge> int (length (Commit_ParentHashes co))
          then Err ErrParentNotFound
          else
            (case sliceAt (Commit_ParentHashes co) i of
               Ok parentHash \<Rightarrow>
                 (case Index_GetIndexByHash (commitGraph gci) parentHash of
                    Ok parentIndex \<Rightarrow>
                      (case Index_GetNodeByIndex (commitGraph gci) parentIndex of
                         Ok parent \<Rightarrow>
                           Ok (GraphNode \<lparr>gcn_hash = parentHash, gcn_index = parentIndex,
                                           gcn_node = parent\<rparr>)
                       | Err e \<Rightarrow> Err e
                       | Panic \<Rightarrow> Panic)
                  | Err e \<Rightarrow>
                      (case GetCommit (gci_s gci) parentHash of
                         Ok parentCommit \<Rightarrow> Ok (FullCommit parentCommit)
                       | Err e' \<Rightarrow> Err e'
                       | Panic \<Rightarrow> Panic)
                  | Panic \<Rightarrow> Panic)
             | Err e \<Rightarrow> Err e
             | Panic \<Rightarrow> Panic))"

definition graph_Commit :: "graphCommitNodeIndex \<Rightarrow> CommitNode \<Rightarrow> Commit result" where
  "graph_Commit gci c =
     (case c of
        GraphNode cgn \<Rightarrow> GetCommit (gci_s gci) (ID (GraphNode cgn))
      | FullCommit co \<Rightarrow> Ok co)"

text \<open>
  A graph index is consistent when every position it hands out for a hash holds a node.
\<close>

definition Index_consistent :: "Index \<Rightarrow> bool" where
  "Index_consistent g \<longleftrightarrow>
     (\<forall>h p. Index_GetIndexByHash g h = Ok p \<longrightarrow> (\<exists>n. Index_GetNodeByIndex g p = Ok n))"

definition MemoryIndex_wf :: "MemoryIndex \<Rightarrow> bool" where
  "MemoryIndex_wf mi \<longleftrightarrow>
     (\<forall>h p. indexMap mi h = Some p \<longrightarrow> 0 \<le> p \<and> p < int (length (commitData mi)))"

section \<open>The history query (getLastCommitForPaths)\<close>

text \<open>
  \<^verbatim>\<open>CommitNodeIndex\<close>, the interface the query walks the graph through. The query also
  calls \<^verbatim>\<open>index.BloomFilter(commit)\<close>, whose declaration is not among the sources: it
  is taken as one more method, giving the filter (its \<^verbatim>\<open>Test\<close> function) or nothing
  when it returns an error.
\<close>

record CommitNodeIndex =
  NumParents :: "CommitNode \<Rightarrow> int"
  ParentNode :: "CommitNode \<Rightarrow> int \<Rightarrow> CommitNode result"
  BloomFilter :: "CommitNode \<Rightarrow> (string \<Rightarrow> bool) option"
  Commit :: "CommitNode \<Rightarrow> Commit result"

definition NewGraphCommitNodeIndex ::
  "Index \<Rightarrow> EncodedObjectStorer \<Rightarrow> (CommitNode \<Rightarrow> (string \<Rightarrow> bool) option) \<Rightarrow> CommitNodeIndex" where
  "NewGraphCommitNodeIndex g s bloom =
     (let gci = \<lparr>commitGraph = g, gci_s = s\<rparr>
      in \<lparr>NumParents = graph_NumParents gci,
          ParentNode = graph_ParentNode gci,
          BloomFilter = bloom,
          Commit = graph_Commit gci\<rparr>)"

text \<open>A Go map read \<^verbatim>\<open>m[path]\<close>: the zero value when the key is absent (or the map nil).\<close>

definition mapGet :: "(string \<rightharpoonup> Hash) \<Rightarrow> string \<Rightarrow> Hash" where
  "mapGet m path = (case m path of None \<Rightarrow> ZeroHash | Some h \<Rightarrow> h)"

record commitAndPaths =
  cap_commit :: CommitNode
  cap_paths :: "string list"
  cap_hashes :: "string \<rightharpoonup> Hash"

definition getCommitTree :: "EncodedObjectStorer \<Rightarrow> CommitNode \<Rightarrow> string \<Rightarrow> Tree result" where
  "getCommitTree s c treePath =
     (case CommitNode_Tree s c of
        Ok tree \<Rightarrow> (if treePath \<noteq> [] then Tree_Tree tree treePath else Ok tree)
      | Err e \<Rightarrow> Err e
      | Panic \<Rightarrow> Panic)"

fun fileHashesLoop :: "Tree \<Rightarrow> string list \<Rightarrow> (string \<rightharpoonup> Hash) \<Rightarrow> (string \<rightharpoonup> Hash)" where
  "fileHashesLoop tree [] hashes = hashes"
| "fileHashesLoop tree (path # rest) hashes =
     (if path \<noteq> [] then
        (case Tree_FindEntry tree path of
           Some h \<Rightarrow> fileHashesLoop tree rest (hashes(path \<mapsto> h))
         | None \<Rightarrow> fileHashesLoop tree rest hashes)
      else fileHashesLoop tree rest (hashes(path \<mapsto> Tree_Hash tree)))"

definition getFileHashes ::
  "EncodedObjectStorer \<Rightarrow> CommitNode \<Rightarrow> string \<Rightarrow> string list \<Rightarrow> (string \<rightharpoonup> Hash) result" where
  "getFileHashes s c treePath paths =
     (case getCommitTree s c treePath of
        Err e \<Rightarrow> (if e = ErrDirectoryNotFound then Ok Map.empty else Err e)
      | Panic \<Rightarrow> Panic
      | Ok tree \<Rightarrow> Ok (fileHashesLoop tree paths Map.empty))"

definition fullPath :: "string \<Rightarrow> string \<Rightarrow> string" where
  "fullPath treePath path =
     (if treePath \<noteq> [] then (if path \<noteq> [] then treePath @ ''/'' @ path else treePath)
      else path)"

fun bloomLoop :: "(string \<Rightarrow> bool) \<Rightarrow> string \<Rightarrow> string list \<Rightarrow> bool" where
  "bloomLoop bloom treePath [] = True"
| "bloomLoop bloom treePath (path # rest) =
     (if bloom (fullPath treePath path) then False else bloomLoop bloom treePath rest)"

definition canSkipCommit :: "CommitNodeIndex \<Rightarrow> CommitNode \<Rightarrow> string \<Rightarrow> string list \<Rightarrow> bool" where
  "canSkipCommit index c treePath paths =
     (case BloomFilter index c of
        Some bloom \<Rightarrow> bloomLoop bloom treePath paths
      | None \<Rightarrow> False)"

text \<open>The comparator handed to the heap.\<close>

definition heapCompare :: "commitAndPaths \<Rightarrow> commitAndPaths \<Rightarrow> int" where
  "heapCompare a b =
     (if CommitTime (cap_commit a) < CommitTime (cap_commit b) then 1 else -1)"

text \<open>
  Modelled from the spec: the priority queue (\<^verbatim>\<open>binaryheap\<close> of an outside library).
  The spec asks for a queue that hands out an entry the comparator puts first, ties
  broken by a fixed rule. The model keeps the entries in the comparator's order; a pushed
  entry goes behind every entry that the comparator does not put after it.
\<close>

fun heapPush :: "commitAndPaths \<Rightarrow> commitAndPaths list \<Rightarrow> commitAndPaths list" where
  "heapPush x [] = [x]"
| "heapPush x (y # ys) =
     (if heapCompare y x \<le> 0 then y # heapPush x ys else x # y # ys)"

record searchState =
  seen :: "Hash set"
  heap :: "commitAndPaths list"
  resultNodes :: "(string \<times> CommitNode) list"

text \<open>
  The loop that loads the parents: positions \<open>0 .. numParents - 1\<close> in order, left at
  the first error.
\<close>

fun loadParents :: "CommitNodeIndex \<Rightarrow> CommitNode \<Rightarrow> int list \<Rightarrow> CommitNode list result" where
  "loadParents index c [] = Ok []"
| "loadParents index c (i # rest) =
     (case ParentNode index c i of
        Ok parent \<Rightarrow>
          (case loadParents index c rest of
             Ok parents \<Rightarrow> Ok (parent # parents)
           | Err e \<Rightarrow> Err e
           | Panic \<Rightarrow> Panic)
      | Err e \<Rightarrow> Ok []
      | Panic \<Rightarrow> Panic)"

text \<open>
  The body of the loop over the active paths for one parent: it counts the parent in when
  the path is present there, and marks the path changed when the hash differs.
\<close>

definition countParent ::
  "(string \<rightharpoonup> Hash) \<Rightarrow> (string \<rightharpoonup> Hash) \<Rightarrow> string list \<Rightarrow> int list \<times> bool list \<Rightarrow> int list \<times> bool list" where
  "countParent parentHash currentHashes paths acc =
     (map2 (\<lambda>path n. if mapGet parentHash path \<noteq> ZeroHash then n + 1 else n) paths (fst acc),
      map2 (\<lambda>path ch.
              if mapGet parentHash path \<noteq> ZeroHash \<and>
                 mapGet parentHash path \<noteq> mapGet currentHashes path
              then True else ch) paths (snd acc))"

text \<open>
  The loop over the parents. A failing \<^verbatim>\<open>getFileHashes\<close> leaves the loop: the maps of
  that parent and of the ones behind it stay nil, the error is kept in a variable that
  is not read again.
\<close>

fun examineParents ::
  "EncodedObjectStorer \<Rightarrow> string \<Rightarrow> commitAndPaths \<Rightarrow> CommitNode list \<Rightarrow>
   (int list \<times> bool list) \<times> (string \<rightharpoonup> Hash) list \<Rightarrow>
   ((int list \<times> bool list) \<times> (string \<rightharpoonup> Hash) list) result" where
  "examineParents s treePath current [] (acc, parentHashes) = Ok (acc, parentHashes)"
| "examineParents s treePath current (parent # rest) (acc, parentHashes) =
     (case getFileHashes s parent treePath (cap_paths current) of
        Ok h \<Rightarrow>
          examineParents s treePath current rest
            (countParent h (cap_hashes current) (cap_paths current) acc, parentHashes @ [h])
      | Err e \<Rightarrow> Ok (acc, parentHashes @ replicate (Suc (length rest)) Map.empty)
      | Panic \<Rightarrow> Panic)"

definition recordResult ::
  "(string \<times> CommitNode) list \<Rightarrow> string \<Rightarrow> CommitNode \<Rightarrow> (string \<times> CommitNode) list" where
  "recordResult res path c = (if map_of res path = None then res @ [(path, c)] else res)"

text \<open>The loop with the \<^verbatim>\<open>switch\<close> on the number of parents that have the path.\<close>

fun classifyPaths ::
  "CommitNode \<Rightarrow> (string \<times> int \<times> bool) list \<Rightarrow> (string \<times> CommitNode) list \<times> string list \<Rightarrow>
   (string \<times> CommitNode) list \<times> string list" where
  "classifyPaths c [] (res, remainingPaths) = (res, remainingPaths)"
| "classifyPaths c ((path, n, changed) # rest) (res, remainingPaths) =
     (if n = 0 then classifyPaths c rest (recordResult res path c, remainingPaths)
      else if n = 1 then
        (if changed then classifyPaths c rest (recordResult res path c, remainingPaths)
         else classifyPaths c rest (res, remainingPaths @ [path]))
      else classifyPaths c rest (res, remainingPaths @ [path]))"

text \<open>The loop that pushes the parents not yet seen.\<close>

fun pushParents ::
  "Hash set \<Rightarrow> string list \<Rightarrow> (CommitNode \<times> (string \<rightharpoonup> Hash)) list \<Rightarrow>
   commitAndPaths list \<Rightarrow> commitAndPaths list" where
  "pushParents sn remainingPaths [] h = h"
| "pushParents sn remainingPaths ((parent, parentHash) # rest) h =
     (if ID parent \<in> sn then pushParents sn remainingPaths rest h
      else pushParents sn remainingPaths rest
             (heapPush \<lparr>cap_commit = parent,
                        cap_paths = filter (\<lambda>path. mapGet parentHash path \<noteq> ZeroHash) remainingPaths,
                        cap_hashes = parentHash\<rparr> h))"

text \<open>
  One turn of the main loop, for the entry \<open>current\<close> just popped (the state already
  without it).
\<close>

definition processEntry ::
  "EncodedObjectStorer \<Rightarrow> CommitNodeIndex \<Rightarrow> string \<Rightarrow> searchState \<Rightarrow> commitAndPaths \<Rightarrow>
   searchState result" where
  "processEntry s index treePath st current =
     (if ID (cap_commit current) \<in> seen st then Ok st
      else
        let sn = insert (ID (cap_commit current)) (seen st);
            numParents = NumParents index (cap_commit current)
        in case loadParents index (cap_commit current) (map int [0 ..< nat numParents]) of
             Err e \<Rightarrow> Err e
           | Panic \<Rightarrow> Panic
           | Ok parents \<Rightarrow>
               if numParents = 1 \<and>
                  canSkipCommit index (cap_commit current) treePath (cap_paths current)
               then
                 (case parents of
                    [] \<Rightarrow> Panic
                  | parent0 # _ \<Rightarrow>
                      Ok (st\<lparr>seen := sn,
                              heap := heapPush \<lparr>cap_commit = parent0,
                                                 cap_paths = cap_paths current,
                                                 cap_hashes = cap_hashes current\<rparr> (heap st)\<rparr>))
               else
                 (case examineParents s treePath current parents
                         ((replicate (length (cap_paths current)) 0,
                           replicate (length (cap_paths current)) False), []) of
                    Err e \<Rightarrow> Err e
                  | Panic \<Rightarrow> Panic
                  | Ok ((numOfParentsWithPath, pathChanged), parentHashes) \<Rightarrow>
                      (case classifyPaths (cap_commit current)
                              (zip (cap_paths current) (zip numOfParentsWithPath pathChanged))
                              (resultNodes st, []) of
                         (res, remainingPaths) \<Rightarrow>
                           Ok (st\<lparr>seen := sn,
                                   resultNodes := res,
                                   heap := (if remainingPaths \<noteq> []
                                            then pushParents sn remainingPaths
                                                   (zip parents parentHashes) (heap st)
                                            else heap st)\<rparr>))))"

text \<open>
  The main loop. It has no bound of its own, so the model counts the turns it may take:
  \<open>None\<close> is "not finished within that many turns".
\<close>

fun searchLoop ::
  "nat \<Rightarrow> EncodedObjectStorer \<Rightarrow> CommitNodeIndex \<Rightarrow> string \<Rightarrow> searchState \<Rightarrow>
   searchState result option" where
  "searchLoop 0 s index treePath st = None"
| "searchLoop (Suc k) s index treePath st =
     (case heap st of
        [] \<Rightarrow> Some (Ok st)
      | current # rest \<Rightarrow>
          (case processEntry s index treePath (st\<lparr>heap := rest\<rparr>) current of
             Ok st' \<Rightarrow> searchLoop k s index treePath st'
           | Err e \<Rightarrow> Some (Err e)
           | Panic \<Rightarrow> Some Panic))"

text \<open>
  The post-processing loop. Go walks the map in no fixed order; the model walks it in
  the order of recording, which only decides which error comes back when several nodes
  cannot be materialised.
\<close>

fun materialize ::
  "CommitNodeIndex \<Rightarrow> (string \<times> CommitNode) list \<Rightarrow> (string \<times> Commit) list result" where
  "materialize index [] = Ok []"
| "materialize index ((path, commitNode) # rest) =
     (case Commit index commitNode of
        Ok co \<Rightarrow>
          (case materialize index rest of
             Ok r \<Rightarrow> Ok ((path, co) # r)
           | Err e \<Rightarrow> Err e
           | Panic \<Rightarrow> Panic)
      | Err e \<Rightarrow> Err e
      | Panic \<Rightarrow> Panic)"

definition initialState :: "CommitNode \<Rightarrow> string list \<Rightarrow> (string \<rightharpoonup> Hash) \<Rightarrow> searchState" where
  "initialState c paths initialHashes =
     \<lparr>seen = {},
      heap = heapPush \<lparr>cap_commit = c, cap_paths = paths, cap_hashes = initialHashes\<rparr> [],
      resultNodes = []\<rparr>"

definition getLastCommitForPaths ::
  "nat \<Rightarrow> EncodedObjectStorer \<Rightarrow> CommitNodeIndex \<Rightarrow> CommitNode \<Rightarrow> string \<Rightarrow> string list \<Rightarrow>
   (string \<times> Commit) list result option" where
  "getLastCommitForPaths fuel s index c treePath paths =
     (case getFileHashes s c treePath paths of
        Err e \<Rightarrow> Some (Err e)
      | Panic \<Rightarrow> Some Panic
      | Ok initialHashes \<Rightarrow>
          (case searchLoop fuel s index treePath (initialState c paths initialHashes) of
             None \<Rightarrow> None
           | Some (Ok st) \<Rightarrow> Some (materialize index (resultNodes st))
           | Some (Err e) \<Rightarrow> Some (Err e)
           | Some Panic \<Rightarrow> Some Panic))"

text \<open>
  The commits that the main loop processes (pops and does not skip as seen), in order,
  over at most \<open>k\<close> turns.
\<close>

fun processedCommits ::
  "nat \<Rightarrow> EncodedObjectStorer \<Rightarrow> CommitNodeIndex \<Rightarrow> string \<Rightarrow> searchState \<Rightarrow> CommitNode list" where
  "processedCommits 0 s index treePath st = []"
| "processedCommits (Suc k) s index treePath st =
     (case heap st of
        [] \<Rightarrow> []
      | current # rest \<Rightarrow>
          (if ID (cap_commit current) \<in> seen st then [] else [cap_commit current]) @
          (case processEntry s index treePath (st\<lparr>heap := rest\<rparr>) current of
             Ok st' \<Rightarrow> processedCommits k s index treePath st'
           | Err e \<Rightarrow> []
           | Panic \<Rightarrow> []))"

text \<open>
  The state after exactly \<open>k\<close> turns of the main loop, when the loop takes that many
  turns without a panic; the parents loaded for a commit; the per-parent hash maps that
  the general case computes; and the number of those maps that hold a path.
\<close>

fun searchTurns ::
  "nat \<Rightarrow> EncodedObjectStorer \<Rightarrow> CommitNodeIndex \<Rightarrow> string \<Rightarrow> searchState \<Rightarrow> searchState option" where
  "searchTurns 0 s index treePath st = Some st"
| "searchTurns (Suc k) s index treePath st =
     (case heap st of
        [] \<Rightarrow> None
      | current # rest \<Rightarrow>
          (case processEntry s index treePath (st\<lparr>heap := rest\<rparr>) current of
             Ok st' \<Rightarrow> searchTurns k s index treePath st'
           | Err e \<Rightarrow> None
           | Panic \<Rightarrow> None))"

definition parentsOf :: "CommitNodeIndex \<Rightarrow> CommitNode \<Rightarrow> CommitNode list" where
  "parentsOf index c =
     (case loadParents index c (map int [0 ..< nat (NumParents index c)]) of
        Ok parents \<Rightarrow> parents
      | Err e \<Rightarrow> []
      | Panic \<Rightarrow> [])"

definition parentHashesOf ::
  "EncodedObjectStorer \<Rightarrow> string \<Rightarrow> commitAndPaths \<Rightarrow> CommitNode list \<Rightarrow> (string \<rightharpoonup> Hash) list" where
  "parentHashesOf s treePath current parents =
     (case examineParents s treePath current parents
             ((replicate (length (cap_paths current)) 0,
               replicate (length (cap_paths current)) False), []) of
        Ok (acc, parentHashes) \<Rightarrow> parentHashes
      | Err e \<Rightarrow> []
      | Panic \<Rightarrow> [])"

definition parentsWithPath :: "(string \<rightharpoonup> Hash) list \<Rightarrow> string \<Rightarrow> nat" where
  "parentsWithPath parentHashes path =
     length (filter (\<lambda>h. mapGet h path \<noteq> ZeroHash) parentHashes)"

section \<open>Example repositories and the notions the properties are stated with\<close>

subsection \<open>Building a repository\<close>

definition fileTree :: "Hash \<Rightarrow> (string \<times> Hash) list \<Rightarrow> Tree" where
  "fileTree h entries = Tree h (map_of entries) (\<lambda>_. Err ErrDirectoryNotFound)"

definition mkCommit :: "Hash \<Rightarrow> Hash \<Rightarrow> Hash list \<Rightarrow> Time \<Rightarrow> Commit" where
  "mkCommit h t ps w =
     \<lparr>Commit_Hash = h, Commit_TreeHash = t, Commit_ParentHashes = ps, Commit_When = w\<rparr>"

definition mkStore :: "(Hash \<times> Commit stored) list \<Rightarrow> (Hash \<times> Tree stored) list \<Rightarrow> EncodedObjectStorer" where
  "mkStore cs ts =
     \<lparr>commitObjects = (\<lambda>h. case map_of cs h of None \<Rightarrow> Missing | Some c \<Rightarrow> c),
      treeObjects = (\<lambda>h. case map_of ts h of None \<Rightarrow> Missing | Some t \<Rightarrow> t)\<rparr>"

text \<open>A walker over an empty graph index: every parent comes from the store.\<close>

definition storeWalker ::
  "EncodedObjectStorer \<Rightarrow> (CommitNode \<Rightarrow> (string \<Rightarrow> bool) option) \<Rightarrow> CommitNodeIndex" where
  "storeWalker s bloom = NewGraphCommitNodeIndex (MemoryIndex_Index NewMemoryIndex) s bloom"

text \<open>
  A graph index that knows commit 1 only, and a store that holds commits 2 and 3, the
  parents of commit 2 being 1 and 3.
\<close>

definition exCommit3 :: Commit where
  "exCommit3 = mkCommit 3 30 [] 5"

definition exCommit2 :: Commit where
  "exCommit2 = mkCommit 2 20 [1, 3] 20"

definition exGraph :: MemoryIndex where
  "exGraph = \<lparr>commitData = [rootNode 10 10], indexMap = [1 \<mapsto> 0]\<rparr>"

definition exWalker :: graphCommitNodeIndex where
  "exWalker =
     \<lparr>commitGraph = MemoryIndex_Index exGraph,
      gci_s = mkStore [(2, Stored exCommit2), (3, Stored exCommit3)] []\<rparr>"

subsection \<open>The order of processing\<close>

text \<open>
  What the order of processing is stated with: the commit time of a heap entry, a heap in
  descending order of commit time, the commits reachable from a commit through
  \<^verbatim>\<open>ParentNode\<close>, and a history in which no parent reachable from a commit is later
  than its child.
\<close>

definition entryTime :: "commitAndPaths \<Rightarrow> Time" where
  "entryTime e = CommitTime (cap_commit e)"

definition heapOrdered :: "commitAndPaths list \<Rightarrow> bool" where
  "heapOrdered h = sorted_wrt (\<lambda>a b. entryTime b \<le> entryTime a) h"

inductive ancestor :: "CommitNodeIndex \<Rightarrow> CommitNode \<Rightarrow> CommitNode \<Rightarrow> bool"
  for index :: CommitNodeIndex and c :: CommitNode where
  ancestor_self: "ancestor index c c"
| ancestor_parent: "ancestor index c a \<Longrightarrow> ParentNode index a i = Ok p \<Longrightarrow> ancestor index c p"

definition parentsNotLater :: "CommitNodeIndex \<Rightarrow> CommitNode \<Rightarrow> bool" where
  "parentsNotLater index c \<longleftrightarrow>
     (\<forall>a i p. ancestor index c a \<longrightarrow> ParentNode index a i = Ok p \<longrightarrow>
        CommitTime p \<le> CommitTime a)"

text \<open>
  Commit 2 with the single parent 1, the file \<open>a\<close> the same in both. In the broken
  store the tree of commit 1 cannot be decoded; in the skewed store commit 1, the parent,
  carries the later commit time.
\<close>

definition exParent :: Commit where
  "exParent = mkCommit 1 10 [] 10"

definition exChild :: Commit where
  "exChild = mkCommit 2 20 [1] 20"

definition exPlainStore :: EncodedObjectStorer where
  "exPlainStore =
     mkStore [(1, Stored exParent), (2, Stored exChild)]
             [(10, Stored (fileTree 10 [(''a'', 100)])), (20, Stored (fileTree 20 [(''a'', 100)]))]"

definition exBrokenStore :: EncodedObjectStorer where
  "exBrokenStore =
     mkStore [(1, Stored exParent), (2, Stored exChild)]
             [(10, Undecodable), (20, Stored (fileTree 20 [(''a'', 100)]))]"

definition exLateParent :: Commit where
  "exLateParent = mkCommit 1 10 [] 20"

definition exEarlyChild :: Commit where
  "exEarlyChild = mkCommit 2 20 [1] 10"

definition exSkewStore :: EncodedObjectStorer where
  "exSkewStore =
     mkStore [(1, Stored exLateParent), (2, Stored exEarlyChild)]
             [(10, Stored (fileTree 10 [(''a'', 100)])), (20, Stored (fileTree 20 [(''a'', 100)]))]"

definition noBloom :: "CommitNode \<Rightarrow> (string \<Rightarrow> bool) option" where
  "noBloom c = None"

definition emptyBloom :: "CommitNode \<Rightarrow> (string \<Rightarrow> bool) option" where
  "emptyBloom c = Some (\<lambda>path. False)"

subsection \<open>A merge of two roots\<close>

text \<open>
  A merge: commit 3 (time 40) with the parents 1 (time 30) and 2 (time 20), both without
  parents; the file \<open>f\<close> is the same in all three.
\<close>

definition exLeft :: Commit where
  "exLeft = mkCommit 1 10 [] 30"

definition exRight :: Commit where
  "exRight = mkCommit 2 11 [] 20"

definition exMerge :: Commit where
  "exMerge = mkCommit 3 12 [1, 2] 40"

definition exMergeStore :: EncodedObjectStorer where
  "exMergeStore =
     mkStore [(1, Stored exLeft), (2, Stored exRight), (3, Stored exMerge)]
             [(10, Stored (fileTree 10 [(''f'', 100)])),
              (11, Stored (fileTree 11 [(''f'', 100)])),
              (12, Stored (fileTree 12 [(''f'', 100)]))]"

definition exMergeEntry :: commitAndPaths where
  "exMergeEntry =
     \<lparr>cap_commit = FullCommit exMerge, cap_paths = [''f''], cap_hashes = [''f'' \<mapsto> 100]\<rparr>"

definition exMergeStart :: searchState where
  "exMergeStart = initialState (FullCommit exMerge) [''f''] [''f'' \<mapsto> 100]"

definition exEmptyState :: searchState where
  "exEmptyState = \<lparr>seen = {}, heap = [], resultNodes = []\<rparr>"

subsection \<open>Presence of a path in the parents of a commit\<close>

text \<open>
  The content of a path at a commit is the hash that \<^verbatim>\<open>getFileHashes\<close> reads for it
  there, the sentinel when the tree has no entry for it. A path is present in a commit when
  that content can be read and is not the sentinel. The hashes of a commit are read when
  \<^verbatim>\<open>getFileHashes\<close> succeeds for it.
\<close>

definition contentAt :: "EncodedObjectStorer \<Rightarrow> CommitNode \<Rightarrow> string \<Rightarrow> string \<Rightarrow> Hash result" where
  "contentAt s c treePath path =
     (case getFileHashes s c treePath [path] of
        Ok m \<Rightarrow> Ok (mapGet m path)
      | Err e \<Rightarrow> Err e
      | Panic \<Rightarrow> Panic)"

definition presentIn :: "EncodedObjectStorer \<Rightarrow> string \<Rightarrow> CommitNode \<Rightarrow> string \<Rightarrow> bool" where
  "presentIn s treePath p path =
     (case contentAt s p treePath path of
        Ok h \<Rightarrow> h \<noteq> ZeroHash
      | Err e \<Rightarrow> False
      | Panic \<Rightarrow> False)"

definition parentsPresent ::
  "EncodedObjectStorer \<Rightarrow> string \<Rightarrow> CommitNode list \<Rightarrow> string \<Rightarrow> nat" where
  "parentsPresent s treePath parents path =
     length (filter (\<lambda>p. presentIn s treePath p path) parents)"

definition hashesRead ::
  "EncodedObjectStorer \<Rightarrow> string \<Rightarrow> string list \<Rightarrow> CommitNode \<Rightarrow> bool" where
  "hashesRead s treePath paths p =
     (case getFileHashes s p treePath paths of
        Ok h \<Rightarrow> True
      | Err e \<Rightarrow> False
      | Panic \<Rightarrow> False)"

text \<open>
  A merge of three roots: commit 4 (time 40) with the parents 1, 2 and 3. The tree of
  commit 1, the first parent, cannot be decoded; the file \<open>f\<close> is the same in the commits
  4, 2 and 3.
\<close>

definition exSecond :: Commit where
  "exSecond = mkCommit 2 11 [] 20"

definition exThird :: Commit where
  "exThird = mkCommit 3 12 [] 30"

definition exOctopus :: Commit where
  "exOctopus = mkCommit 4 13 [1, 2, 3] 40"

definition exOctopusStore :: EncodedObjectStorer where
  "exOctopusStore =
     mkStore [(1, Stored exParent), (2, Stored exSecond), (3, Stored exThird),
              (4, Stored exOctopus)]
             [(10, Undecodable),
              (11, Stored (fileTree 11 [(''f'', 100)])),
              (12, Stored (fileTree 12 [(''f'', 100)])),
              (13, Stored (fileTree 13 [(''f'', 100)]))]"

definition exOctopusEntry :: commitAndPaths where
  "exOctopusEntry =
     \<lparr>cap_commit = FullCommit exOctopus, cap_paths = [''f''], cap_hashes = [''f'' \<mapsto> 100]\<rparr>"

subsection \<open>The zero hash as the sentinel\<close>

text \<open>
  What "a tree entry with the zero hash is treated as an absent entry" is stated with:
  the hash that a tree gives for a path, the sentinel when it has no entry; two trees
  that give the same hash for every path in this sense; two stores whose trees, as
  \<^verbatim>\<open>getCommitTree\<close> hands them out, differ at most in that way; two hash maps equal as
  far as a map read can tell, frontier entries and search states equal up to such maps.
\<close>

definition entryHash :: "Tree \<Rightarrow> string \<Rightarrow> Hash" where
  "entryHash t path = (case Tree_FindEntry t path of None \<Rightarrow> ZeroHash | Some h \<Rightarrow> h)"

definition sameUpToZero :: "Tree \<Rightarrow> Tree \<Rightarrow> bool" where
  "sameUpToZero t t' \<longleftrightarrow> Tree_Hash t = Tree_Hash t' \<and> (\<forall>path. entryHash t path = entryHash t' path)"

definition storesAgreeUpToZero :: "EncodedObjectStorer \<Rightarrow> EncodedObjectStorer \<Rightarrow> bool" where
  "storesAgreeUpToZero s s' \<longleftrightarrow>
     (\<forall>c treePath. rel_result sameUpToZero (getCommitTree s c treePath) (getCommitTree s' c treePath))"

definition sameReads :: "(string \<rightharpoonup> Hash) \<Rightarrow> (string \<rightharpoonup> Hash) \<Rightarrow> bool" where
  "sameReads m m' \<longleftrightarrow> (\<forall>path. mapGet m path = mapGet m' path)"

definition sameEntry :: "commitAndPaths \<Rightarrow> commitAndPaths \<Rightarrow> bool" where
  "sameEntry e e' \<longleftrightarrow>
     cap_commit e = cap_commit e' \<and> cap_paths e = cap_paths e' \<and>
     sameReads (cap_hashes e) (cap_hashes e')"

definition sameState :: "searchState \<Rightarrow> searchState \<Rightarrow> bool" where
  "sameState st st' \<longleftrightarrow>
     seen st = seen st' \<and> resultNodes st = resultNodes st' \<and>
     list_all2 sameEntry (heap st) (heap st')"

definition pathHash :: "Tree \<Rightarrow> string \<Rightarrow> Hash" where
  "pathHash t path = (if path = [] then Tree_Hash t else entryHash t path)"

text \<open>
  Two stores for the history of commit 2 and its parent 1 that differ in the parent's
  tree only: one has an entry \<open>z\<close> with the zero hash there, the other no entry \<open>z\<close>.
\<close>

definition exZeroStore :: EncodedObjectStorer where
  "exZeroStore =
     mkStore [(1, Stored exParent), (2, Stored exChild)]
             [(10, Stored (fileTree 10 [(''a'', 100), (''z'', 0)])),
              (20, Stored (fileTree 20 [(''a'', 100), (''z'', 55)]))]"

definition exAbsentStore :: EncodedObjectStorer where
  "exAbsentStore =
     mkStore [(1, Stored exParent), (2, Stored exChild)]
             [(10, Stored (fileTree 10 [(''a'', 100)])),
              (20, Stored (fileTree 20 [(''a'', 100), (''z'', 55)]))]"

subsection \<open>The search with and without the Bloom fast path\<close>

text \<open>
  What the comparison of the search with and without the Bloom fast path is stated with.
  The search without the fast path is the search over a walker that has no filter for any
  commit: \<^verbatim>\<open>canSkipCommit\<close> is then false everywhere. A history is linear when no commit
  reachable from the start has more than one parent. The filters are sound for the
  requested paths when a commit with one parent and a filter has a first parent that can
  be loaded, and the filter answers true for every requested path whose content differs
  between the two. Nothing is asked of a filter for a path that the query does not name:
  the filters that \<^verbatim>\<open>createBloomFilter\<close> builds hold the names of the changed tree
  entries and answer the query for those.
\<close>

definition withoutBloomFilters :: "CommitNodeIndex \<Rightarrow> CommitNodeIndex" where
  "withoutBloomFilters index = index\<lparr>BloomFilter := (\<lambda>c. None)\<rparr>"


definition bloomSound ::
  "EncodedObjectStorer \<Rightarrow> CommitNodeIndex \<Rightarrow> string \<Rightarrow> string list \<Rightarrow> CommitNode \<Rightarrow> bool" where
  "bloomSound s index treePath paths c \<longleftrightarrow>
     (\<forall>a bloom. ancestor index c a \<longrightarrow> NumParents index a = 1 \<longrightarrow>
        BloomFilter index a = Some bloom \<longrightarrow>
        (\<exists>p. ParentNode index a 0 = Ok p \<and>
           (\<forall>path \<in> set paths. \<not> bloom (fullPath treePath path) \<longrightarrow>
              contentAt s a treePath path = contentAt s p treePath path)))"

definition pathsPresent :: "EncodedObjectStorer \<Rightarrow> CommitNode \<Rightarrow> string \<Rightarrow> string list \<Rightarrow> bool" where
  "pathsPresent s c treePath paths \<longleftrightarrow>
     paths \<noteq> [] \<and>
     (\<forall>path \<in> set paths. \<exists>h. contentAt s c treePath path = Ok h \<and> h \<noteq> ZeroHash)"












text \<open>
  A diamond: commit 4 (time 40) merges 2 (time 20) and 3 (time 30), both children of the
  root 1 (time 10). The file \<open>f\<close> is the same in 4, 2 and 1; commit 3 has the file \<open>g\<close>
  instead. The filter of commit 2 answers false for every path (its tree is the tree of
  its parent), every other filter answers true for every path.
\<close>

definition exRoot :: Commit where
  "exRoot = mkCommit 1 10 [] 10"

definition exSide :: Commit where
  "exSide = mkCommit 2 10 [1] 20"

definition exOther :: Commit where
  "exOther = mkCommit 3 11 [1] 30"

definition exTop :: Commit where
  "exTop = mkCommit 4 10 [2, 3] 40"

definition exDiamondStore :: EncodedObjectStorer where
  "exDiamondStore =
     mkStore [(1, Stored exRoot), (2, Stored exSide), (3, Stored exOther), (4, Stored exTop)]
             [(10, Stored (fileTree 10 [(''f'', 100)])),
              (11, Stored (fileTree 11 [(''g'', 200)]))]"

definition exDiamondBloom :: "CommitNode \<Rightarrow> (string \<Rightarrow> bool) option" where
  "exDiamondBloom c = (if ID c = 2 then Some (\<lambda>path. False) else Some (\<lambda>path. True))"

section \<open>Properties of the in-memory commit graph\<close>

lemma resolveParents_Ok_iff:
  "(\<exists>idxs. resolveParents mi hs = Ok idxs) \<longleftrightarrow> (\<forall>h \<in> set hs. indexMap mi h \<noteq> None)"
  by (induction hs) (auto simp: GetIndexByHash_def split: option.splits result.splits)

lemma resolveParents_not_Panic: "resolveParents mi hs \<noteq> Panic"
  by (induction hs) (auto simp: GetIndexByHash_def split: option.splits result.splits)

lemma resolveParents_Err:
  "resolveParents mi hs = Err e \<Longrightarrow> e = ErrObjectNotFound"
  by (induction hs) (auto simp: GetIndexByHash_def split: option.splits result.splits)

lemma resolveParents_missing:
  assumes "h \<in> set hs" and "indexMap mi h = None"
  shows "resolveParents mi hs = Err ErrObjectNotFound"
proof (cases "resolveParents mi hs")
  case (Ok idxs)
  with resolveParents_Ok_iff [of mi hs] assms show ?thesis by auto
next
  case (Err e)
  then show ?thesis using resolveParents_Err by blast
next
  case Panic
  then show ?thesis using resolveParents_not_Panic by blast
qed

lemma resolveParents_mirror:
  "resolveParents mi hs = Ok idxs \<Longrightarrow>
     length idxs = length hs \<and> (\<forall>i < length hs. indexMap mi (hs ! i) = Some (idxs ! i))"
proof (induction hs arbitrary: idxs)
  case Nil
  then show ?case by simp
next
  case (Cons h hs)
  from Cons.prems obtain j js where
    j: "indexMap mi h = Some j" and js: "resolveParents mi hs = Ok js" and eq: "idxs = j # js"
    by (auto simp: GetIndexByHash_def split: option.splits result.splits)
  from Cons.IH [OF js] have
    len: "length js = length hs" and
    nth: "\<forall>i < length hs. indexMap mi (hs ! i) = Some (js ! i)"
    by simp_all
  show ?case
  proof (intro conjI allI impI)
    show "length idxs = length (h # hs)" using len eq by simp
  next
    fix i assume "i < length (h # hs)"
    then show "indexMap mi ((h # hs) ! i) = Some (idxs ! i)"
      using j nth eq by (cases i) simp_all
  qed
qed

lemma Add_other_hash:
  "Add mi hash node = Ok (mi', node') \<Longrightarrow> h \<noteq> hash \<Longrightarrow>
     GetIndexByHash mi' h = GetIndexByHash mi h"
  by (auto simp: Add_def GetIndexByHash_def Let_def split: result.splits)

text \<open>
  C6. \<^verbatim>\<open>Add(hash, node)\<close> fails with NotFound, leaving nothing stored, when some hash
  of \<^verbatim>\<open>node.ParentHashes\<close> is not in the index. When all of them are in the index it
  succeeds, the node is appended at the next free position, and its \<^verbatim>\<open>ParentIndexes\<close>
  have the length of \<^verbatim>\<open>ParentHashes\<close>, the i-th one being the position that
  \<^verbatim>\<open>GetIndexByHash\<close> gives for the i-th parent hash in the index the node was added to.
  The same holds for the lookups in the index after the call, unless the added hash is
  itself one of the node's parent hashes.
\<close>

theorem Add_topological:
  "((\<exists>h \<in> set (ParentHashes node). GetIndexByHash mi h = Err ErrObjectNotFound) \<longrightarrow>
      Add mi hash node = Err ErrObjectNotFound) \<and>
   ((\<forall>h \<in> set (ParentHashes node). GetIndexByHash mi h \<noteq> Err ErrObjectNotFound) \<longrightarrow>
      (\<exists>mi' node'.
         Add mi hash node = Ok (mi', node') \<and>
         ParentHashes node' = ParentHashes node \<and>
         commitData mi' = commitData mi @ [node'] \<and>
         GetIndexByHash mi' hash = Ok (int (length (commitData mi))) \<and>
         length (ParentIndexes node') = length (ParentHashes node') \<and>
         (\<forall>i < length (ParentHashes node').
            GetIndexByHash mi (ParentHashes node' ! i) = Ok (ParentIndexes node' ! i)) \<and>
         (hash \<notin> set (ParentHashes node) \<longrightarrow>
            (\<forall>i < length (ParentHashes node').
               GetIndexByHash mi' (ParentHashes node' ! i) = Ok (ParentIndexes node' ! i)))))"
proof (intro conjI impI)
  assume "\<exists>h \<in> set (ParentHashes node). GetIndexByHash mi h = Err ErrObjectNotFound"
  then obtain h where h: "h \<in> set (ParentHashes node)" and "indexMap mi h = None"
    by (auto simp: GetIndexByHash_def split: option.splits)
  then have "resolveParents mi (ParentHashes node) = Err ErrObjectNotFound"
    by (rule resolveParents_missing)
  then show "Add mi hash node = Err ErrObjectNotFound"
    by (simp add: Add_def)
next
  assume "\<forall>h \<in> set (ParentHashes node). GetIndexByHash mi h \<noteq> Err ErrObjectNotFound"
  then have "\<forall>h \<in> set (ParentHashes node). indexMap mi h \<noteq> None"
    by (auto simp: GetIndexByHash_def split: option.splits)
  then obtain idxs where r: "resolveParents mi (ParentHashes node) = Ok idxs"
    using resolveParents_Ok_iff [of mi "ParentHashes node"] by blast
  define node' where "node' = node\<lparr>ParentIndexes := idxs\<rparr>"
  define mi' where
    "mi' = \<lparr>commitData = commitData mi @ [node'],
            indexMap = (indexMap mi)(hash \<mapsto> int (length (commitData mi)))\<rparr>"
  have add: "Add mi hash node = Ok (mi', node')"
    using r by (simp add: Add_def Let_def node'_def mi'_def)
  have hs: "ParentHashes node' = ParentHashes node"
    by (simp add: node'_def)
  have len: "length (ParentIndexes node') = length (ParentHashes node')"
    using resolveParents_mirror [OF r] by (simp add: node'_def)
  have pre: "\<forall>i < length (ParentHashes node').
               GetIndexByHash mi (ParentHashes node' ! i) = Ok (ParentIndexes node' ! i)"
    using resolveParents_mirror [OF r] by (simp add: node'_def GetIndexByHash_def)
  have post: "hash \<notin> set (ParentHashes node) \<longrightarrow>
               (\<forall>i < length (ParentHashes node').
                  GetIndexByHash mi' (ParentHashes node' ! i) = Ok (ParentIndexes node' ! i))"
  proof (intro impI allI)
    fix i assume nin: "hash \<notin> set (ParentHashes node)" and i: "i < length (ParentHashes node')"
    then have "ParentHashes node' ! i \<noteq> hash"
      using hs nth_mem by metis
    then have "GetIndexByHash mi' (ParentHashes node' ! i) = GetIndexByHash mi (ParentHashes node' ! i)"
      using Add_other_hash [OF add] by blast
    with pre i show "GetIndexByHash mi' (ParentHashes node' ! i) = Ok (ParentIndexes node' ! i)"
      by simp
  qed
  show "\<exists>mi' node'.
         Add mi hash node = Ok (mi', node') \<and>
         ParentHashes node' = ParentHashes node \<and>
         commitData mi' = commitData mi @ [node'] \<and>
         GetIndexByHash mi' hash = Ok (int (length (commitData mi))) \<and>
         length (ParentIndexes node') = length (ParentHashes node') \<and>
         (\<forall>i < length (ParentHashes node').
            GetIndexByHash mi (ParentHashes node' ! i) = Ok (ParentIndexes node' ! i)) \<and>
         (hash \<notin> set (ParentHashes node) \<longrightarrow>
            (\<forall>i < length (ParentHashes node').
               GetIndexByHash mi' (ParentHashes node' ! i) = Ok (ParentIndexes node' ! i)))"
    using add hs len pre post
    by (intro exI [of _ mi'] exI [of _ node']) (simp add: mi'_def GetIndexByHash_def)
qed

theorem Add_topological_witness:
  "Add NewMemoryIndex 2 (childNode 8 [1] 20) = Err ErrObjectNotFound \<and>
   (\<exists>mi'. Add exGraph 2 (childNode 8 [1] 20) = Ok (mi', (childNode 8 [1] 20)\<lparr>ParentIndexes := [0]\<rparr>) \<and>
          GetIndexByHash mi' 2 = Ok 1 \<and> GetIndexByHash mi' 1 = Ok 0)"
proof -
  have missing: "\<exists>h \<in> set (ParentHashes (childNode 8 [1] 20)).
                   GetIndexByHash NewMemoryIndex h = Err ErrObjectNotFound"
    by (simp add: childNode_def GetIndexByHash_def NewMemoryIndex_def)
  have fails: "Add NewMemoryIndex 2 (childNode 8 [1] 20) = Err ErrObjectNotFound"
    using Add_topological [of "childNode 8 [1] 20" NewMemoryIndex 2] missing by blast
  have present: "\<forall>h \<in> set (ParentHashes (childNode 8 [1] 20)).
                   GetIndexByHash exGraph h \<noteq> Err ErrObjectNotFound"
    by (simp add: childNode_def GetIndexByHash_def exGraph_def)
  have fresh: "(2::Hash) \<notin> set (ParentHashes (childNode 8 [1] 20))"
    by (simp add: childNode_def)
  from Add_topological [of "childNode 8 [1] 20" exGraph 2] present fresh
  obtain mi' node' where
    add: "Add exGraph 2 (childNode 8 [1] 20) = Ok (mi', node')" and
    hs: "ParentHashes node' = ParentHashes (childNode 8 [1] 20)" and
    own: "GetIndexByHash mi' 2 = Ok (int (length (commitData exGraph)))" and
    len: "length (ParentIndexes node') = length (ParentHashes node')" and
    post: "\<forall>i < length (ParentHashes node').
             GetIndexByHash mi' (ParentHashes node' ! i) = Ok (ParentIndexes node' ! i)"
    by blast
  from add have node': "node' = (childNode 8 [1] 20)\<lparr>ParentIndexes := [0]\<rparr>"
    by (simp add: Add_def GetIndexByHash_def exGraph_def childNode_def Let_def)
  from post hs have "GetIndexByHash mi' 1 = Ok 0"
    by (simp add: node' childNode_def)
  moreover from own have "GetIndexByHash mi' 2 = Ok 1"
    by (simp add: exGraph_def)
  ultimately show ?thesis
    using fails add node' by blast
qed

text \<open>
  C7. Over a sequence of successful \<^verbatim>\<open>Add\<close> calls the position of a hash stays what it
  is as long as that hash is not added again: an \<^verbatim>\<open>Add\<close> changes the position of the
  added hash only.
\<close>

theorem GetIndexByHash_stable:
  "AddAll mi adds = Ok mi' \<Longrightarrow> GetIndexByHash mi h = Ok p \<Longrightarrow> h \<notin> fst ` set adds \<Longrightarrow>
     GetIndexByHash mi' h = Ok p"
proof (induction adds arbitrary: mi)
  case Nil
  then show ?case by simp
next
  case (Cons a adds)
  obtain hash node where a: "a = (hash, node)" by (cases a)
  from Cons.prems(1) a obtain mi1 node1 where
    add: "Add mi hash node = Ok (mi1, node1)" and rest: "AddAll mi1 adds = Ok mi'"
    by (auto split: result.splits)
  from Cons.prems(3) a have ne: "h \<noteq> hash" and nin: "h \<notin> fst ` set adds" by auto
  have "GetIndexByHash mi1 h = Ok p"
    using Add_other_hash [OF add ne] Cons.prems(2) by simp
  from Cons.IH [OF rest this nin] show ?case .
qed

theorem GetIndexByHash_stable_witness:
  "AddAll NewMemoryIndex [(1, rootNode 7 10)] = Ok \<lparr>commitData = [rootNode 7 10], indexMap = [1 \<mapsto> 0]\<rparr> \<and>
   positionAfter NewMemoryIndex [(1, rootNode 7 10)] 1 = Ok 0 \<and>
   positionAfter NewMemoryIndex [(1, rootNode 7 10), (2, childNode 8 [1] 20), (3, childNode 9 [2, 1] 30)] 1 = Ok 0"
proof -
  define mi1 where "mi1 = \<lparr>commitData = [rootNode 7 10], indexMap = [(1::Hash) \<mapsto> (0::int)]\<rparr>"
  define adds where "adds = [(2::Hash, childNode 8 [1] 20), (3, childNode 9 [2, 1] 30)]"
  have a1: "AddAll NewMemoryIndex [(1, rootNode 7 10)] = Ok mi1"
    by (simp add: Add_def NewMemoryIndex_def rootNode_def mi1_def Let_def)
  have a2: "\<exists>mi2. AddAll mi1 adds = Ok mi2"
    by (simp add: Add_def GetIndexByHash_def childNode_def rootNode_def mi1_def adds_def Let_def)
  then obtain mi2 where mi2: "AddAll mi1 adds = Ok mi2" ..
  have p1: "GetIndexByHash mi1 1 = Ok 0"
    by (simp add: GetIndexByHash_def mi1_def)
  have nin: "(1::Hash) \<notin> fst ` set adds"
    by (simp add: adds_def)
  have "GetIndexByHash mi2 1 = Ok 0"
    using GetIndexByHash_stable [OF mi2 p1 nin] .
  moreover have "AddAll NewMemoryIndex ((1, rootNode 7 10) # adds) = AddAll mi1 adds"
    using a1 by (simp split: result.splits prod.splits)
  ultimately show ?thesis
    using a1 p1 mi2 by (simp add: positionAfter_def adds_def mi1_def)
qed

theorem GetIndexByHash_stable_counterexample:
  "positionAfter NewMemoryIndex [(1, rootNode 7 10), (2, childNode 8 [1] 20)] 1 = Ok 0 \<and>
   positionAfter NewMemoryIndex [(1, rootNode 7 10), (2, childNode 8 [1] 20), (1, rootNode 7 10)] 1 = Ok 2"
  by (simp add: positionAfter_def Add_def GetIndexByHash_def NewMemoryIndex_def
        rootNode_def childNode_def Let_def)

lemma GetNodeByIndex_in_range:
  "0 \<le> i \<Longrightarrow> i < int (length (commitData mi)) \<Longrightarrow> GetNodeByIndex mi i = Ok (commitData mi ! nat i)"
  by (simp add: GetNodeByIndex_def)

lemma GetNodeByIndex_above:
  "int (length (commitData mi)) \<le> i \<Longrightarrow> GetNodeByIndex mi i = Err ErrObjectNotFound"
  by (simp add: GetNodeByIndex_def)

text \<open>
  C9. \<^verbatim>\<open>GetNodeByIndex\<close> at the position -1: the bound test lets it through and the
  slice read panics; the position is out of range, and the answer is not NotFound.
\<close>

theorem GetNodeByIndex_negative:
  "GetNodeByIndex mi (-1) = Panic \<and> GetNodeByIndex mi (-1) \<noteq> Err ErrObjectNotFound"
  by (simp add: GetNodeByIndex_def)

lemma NewMemoryIndex_wf: "MemoryIndex_wf NewMemoryIndex"
  by (simp add: MemoryIndex_wf_def NewMemoryIndex_def)

lemma Add_wf:
  assumes "MemoryIndex_wf mi" and "Add mi hash node = Ok (mi', node')"
  shows "MemoryIndex_wf mi'"
  unfolding MemoryIndex_wf_def
proof (intro allI impI)
  fix h p
  assume hp: "indexMap mi' h = Some p"
  from assms(2) have cd: "length (commitData mi') = Suc (length (commitData mi))"
    and im: "indexMap mi' = (indexMap mi)(hash \<mapsto> int (length (commitData mi)))"
    by (auto simp: Add_def Let_def split: result.splits)
  show "0 \<le> p \<and> p < int (length (commitData mi'))"
  proof (cases "h = hash")
    case True
    with hp im cd show ?thesis by simp
  next
    case False
    with hp im have "indexMap mi h = Some p" by simp
    with assms(1) have "0 \<le> p \<and> p < int (length (commitData mi))"
      unfolding MemoryIndex_wf_def by blast
    with cd show ?thesis by simp
  qed
qed

lemma AddAll_wf:
  "MemoryIndex_wf mi \<Longrightarrow> AddAll mi adds = Ok mi' \<Longrightarrow> MemoryIndex_wf mi'"
proof (induction adds arbitrary: mi)
  case Nil
  then show ?case by simp
next
  case (Cons a adds)
  obtain hash node where a: "a = (hash, node)" by (cases a)
  from Cons.prems(2) a obtain mi1 node1 where
    add: "Add mi hash node = Ok (mi1, node1)" and rest: "AddAll mi1 adds = Ok mi'"
    by (auto split: result.splits)
  from Add_wf [OF Cons.prems(1) add] have "MemoryIndex_wf mi1" .
  from Cons.IH [OF this rest] show ?case .
qed

lemma MemoryIndex_wf_consistent:
  assumes "MemoryIndex_wf mi"
  shows "Index_consistent (MemoryIndex_Index mi)"
  unfolding Index_consistent_def
proof (intro allI impI)
  fix h p
  assume "Index_GetIndexByHash (MemoryIndex_Index mi) h = Ok p"
  then have "indexMap mi h = Some p"
    by (simp add: MemoryIndex_Index_def GetIndexByHash_def split: option.splits)
  with assms have "0 \<le> p" and "p < int (length (commitData mi))"
    unfolding MemoryIndex_wf_def by blast+
  then have "Index_GetNodeByIndex (MemoryIndex_Index mi) p = Ok (commitData mi ! nat p)"
    by (simp add: MemoryIndex_Index_def GetNodeByIndex_def)
  then show "\<exists>n. Index_GetNodeByIndex (MemoryIndex_Index mi) p = Ok n" by blast
qed

lemma GetCommit_not_ErrParentNotFound: "GetCommit s h \<noteq> Err ErrParentNotFound"
  by (simp add: GetCommit_def split: stored.splits)

lemma GetCommit_not_Panic: "GetCommit s h \<noteq> Panic"
  by (simp add: GetCommit_def split: stored.splits)

text \<open>
  C8. For a fully decoded commit and a parent position in range, over a consistent graph
  index: when the graph index knows the parent's hash, \<^verbatim>\<open>ParentNode\<close> gives the
  index-backed node made of that hash, its position and the node stored there; when the
  graph index does not know it, \<^verbatim>\<open>ParentNode\<close> gives what \<^verbatim>\<open>GetCommit\<close> gives for that
  hash from the store, which is never the "parent not found" error.
\<close>

theorem graph_ParentNode_fallback:
  assumes "0 \<le> i" and "i < int (length (Commit_ParentHashes co))"
    and "Index_consistent (commitGraph gci)"
  shows
    "(\<forall>p. Index_GetIndexByHash (commitGraph gci) (Commit_ParentHashes co ! nat i) = Ok p \<longrightarrow>
        (\<exists>n. Index_GetNodeByIndex (commitGraph gci) p = Ok n \<and>
             graph_ParentNode gci (FullCommit co) i =
               Ok (GraphNode \<lparr>gcn_hash = Commit_ParentHashes co ! nat i, gcn_index = p,
                               gcn_node = n\<rparr>))) \<and>
     (\<forall>e. Index_GetIndexByHash (commitGraph gci) (Commit_ParentHashes co ! nat i) = Err e \<longrightarrow>
        graph_ParentNode gci (FullCommit co) i =
          (case GetCommit (gci_s gci) (Commit_ParentHashes co ! nat i) of
             Ok parentCommit \<Rightarrow> Ok (FullCommit parentCommit)
           | Err e' \<Rightarrow> Err e'
           | Panic \<Rightarrow> Panic) \<and>
        graph_ParentNode gci (FullCommit co) i \<noteq> Err ErrParentNotFound \<and>
        graph_ParentNode gci (FullCommit co) i \<noteq> Panic)"
proof (intro conjI allI impI)
  have ne: "Commit_ParentHashes co \<noteq> []"
    using assms(1,2) by auto
  fix p
  assume hit: "Index_GetIndexByHash (commitGraph gci) (Commit_ParentHashes co ! nat i) = Ok p"
  with assms(3) obtain n where n: "Index_GetNodeByIndex (commitGraph gci) p = Ok n"
    unfolding Index_consistent_def by blast
  have "graph_ParentNode gci (FullCommit co) i =
          Ok (GraphNode \<lparr>gcn_hash = Commit_ParentHashes co ! nat i, gcn_index = p, gcn_node = n\<rparr>)"
    using assms(1,2) ne hit n by (simp add: graph_ParentNode_def sliceAt_def)
  with n show "\<exists>n. Index_GetNodeByIndex (commitGraph gci) p = Ok n \<and>
             graph_ParentNode gci (FullCommit co) i =
               Ok (GraphNode \<lparr>gcn_hash = Commit_ParentHashes co ! nat i, gcn_index = p,
                               gcn_node = n\<rparr>)"
    by blast
next
  have ne: "Commit_ParentHashes co \<noteq> []"
    using assms(1,2) by auto
  fix e
  assume miss: "Index_GetIndexByHash (commitGraph gci) (Commit_ParentHashes co ! nat i) = Err e"
  show eq: "graph_ParentNode gci (FullCommit co) i =
          (case GetCommit (gci_s gci) (Commit_ParentHashes co ! nat i) of
             Ok parentCommit \<Rightarrow> Ok (FullCommit parentCommit)
           | Err e' \<Rightarrow> Err e'
           | Panic \<Rightarrow> Panic)"
    using assms(1,2) ne miss by (simp add: graph_ParentNode_def sliceAt_def)
  show "graph_ParentNode gci (FullCommit co) i \<noteq> Err ErrParentNotFound"
    using GetCommit_not_ErrParentNotFound [of "gci_s gci" "Commit_ParentHashes co ! nat i"]
    unfolding eq by (cases "GetCommit (gci_s gci) (Commit_ParentHashes co ! nat i)") auto
  show "graph_ParentNode gci (FullCommit co) i \<noteq> Panic"
    using GetCommit_not_Panic [of "gci_s gci" "Commit_ParentHashes co ! nat i"]
    unfolding eq by (cases "GetCommit (gci_s gci) (Commit_ParentHashes co ! nat i)") auto
qed

theorem graph_ParentNode_fallback_witness:
  "Index_consistent (commitGraph exWalker) \<and>
   graph_ParentNode exWalker (FullCommit exCommit2) 0 =
     Ok (GraphNode \<lparr>gcn_hash = 1, gcn_index = 0, gcn_node = rootNode 10 10\<rparr>) \<and>
   graph_ParentNode exWalker (FullCommit exCommit2) 1 = Ok (FullCommit exCommit3)"
proof -
  have wf: "MemoryIndex_wf exGraph"
    by (simp add: MemoryIndex_wf_def exGraph_def)
  have c: "Index_consistent (commitGraph exWalker)"
    using MemoryIndex_wf_consistent [OF wf] by (simp add: exWalker_def)
  have l0: "(0::int) \<le> 0" and l1: "(0::int) \<le> 1" by simp_all
  have u0: "0 < int (length (Commit_ParentHashes exCommit2))"
    and u1: "1 < int (length (Commit_ParentHashes exCommit2))"
    by (simp_all add: exCommit2_def mkCommit_def)
  have hit: "Index_GetIndexByHash (commitGraph exWalker) (Commit_ParentHashes exCommit2 ! nat 0) = Ok 0"
    by (simp add: exWalker_def MemoryIndex_Index_def GetIndexByHash_def exGraph_def
          exCommit2_def mkCommit_def)
  have node: "Index_GetNodeByIndex (commitGraph exWalker) 0 = Ok (rootNode 10 10)"
    by (simp add: exWalker_def MemoryIndex_Index_def GetNodeByIndex_def exGraph_def)
  have miss: "Index_GetIndexByHash (commitGraph exWalker) (Commit_ParentHashes exCommit2 ! nat 1) =
                Err ErrObjectNotFound"
    by (simp add: exWalker_def MemoryIndex_Index_def GetIndexByHash_def exGraph_def
          exCommit2_def mkCommit_def)
  have get: "GetCommit (gci_s exWalker) (Commit_ParentHashes exCommit2 ! nat 1) = Ok exCommit3"
    by (simp add: exWalker_def GetCommit_def mkStore_def exCommit2_def mkCommit_def)
  have p0: "graph_ParentNode exWalker (FullCommit exCommit2) 0 =
              Ok (GraphNode \<lparr>gcn_hash = 1, gcn_index = 0, gcn_node = rootNode 10 10\<rparr>)"
    using graph_ParentNode_fallback [OF l0 u0 c] hit node
    by (auto simp: exCommit2_def mkCommit_def)
  have p1: "graph_ParentNode exWalker (FullCommit exCommit2) 1 = Ok (FullCommit exCommit3)"
    using graph_ParentNode_fallback [OF l1 u1 c] miss get by auto
  from c p0 p1 show ?thesis by simp
qed
section \<open>Properties of the history query\<close>

lemma processEntry_seen:
  "ID (cap_commit current) \<in> seen st \<Longrightarrow> processEntry s index treePath st current = Ok st"
  by (simp add: processEntry_def)

lemma processEntry_fast:
  assumes "ID (cap_commit current) \<notin> seen st"
    and "loadParents index (cap_commit current)
           (map int [0 ..< nat (NumParents index (cap_commit current))]) = Ok parents"
    and "NumParents index (cap_commit current) = 1"
    and "canSkipCommit index (cap_commit current) treePath (cap_paths current)"
  shows "processEntry s index treePath st current =
           (case parents of
              [] \<Rightarrow> Panic
            | parent0 # _ \<Rightarrow>
                Ok (st\<lparr>seen := insert (ID (cap_commit current)) (seen st),
                        heap := heapPush \<lparr>cap_commit = parent0,
                                           cap_paths = cap_paths current,
                                           cap_hashes = cap_hashes current\<rparr> (heap st)\<rparr>))"
  using assms by (simp add: processEntry_def Let_def)

lemma processEntry_general:
  assumes "ID (cap_commit current) \<notin> seen st"
    and "loadParents index (cap_commit current)
           (map int [0 ..< nat (NumParents index (cap_commit current))]) = Ok parents"
    and "\<not> (NumParents index (cap_commit current) = 1 \<and>
            canSkipCommit index (cap_commit current) treePath (cap_paths current))"
    and "examineParents s treePath current parents
           ((replicate (length (cap_paths current)) 0,
             replicate (length (cap_paths current)) False), []) = Ok ((n, ch), phs)"
    and "classifyPaths (cap_commit current) (zip (cap_paths current) (zip n ch))
           (resultNodes st, []) = (res, rem)"
  shows "processEntry s index treePath st current =
           Ok (st\<lparr>seen := insert (ID (cap_commit current)) (seen st),
                   resultNodes := res,
                   heap := (if rem \<noteq> []
                            then pushParents (insert (ID (cap_commit current)) (seen st)) rem
                                   (zip parents phs) (heap st)
                            else heap st)\<rparr>)"
  using assms by (auto simp: processEntry_def Let_def)

lemma loadParents_not_Err: "loadParents index c idxs \<noteq> Err e"
  by (induction idxs) (auto split: result.splits)

lemma examineParents_not_Err: "examineParents s treePath current parents a \<noteq> Err e"
proof (induction s treePath current parents a rule: examineParents.induct)
  case (1 s treePath current acc parentHashes)
  then show ?case by simp
next
  case (2 s treePath current parent rest acc parentHashes)
  then show ?case
    by (cases "getFileHashes s parent treePath (cap_paths current)") simp_all
qed

lemma processEntry_Ok_cases:
  assumes ok: "processEntry s index treePath st current = Ok st'"
  obtains
    (skip) "ID (cap_commit current) \<in> seen st" and "st' = st"
  | (fast) parent0 rest where
      "ID (cap_commit current) \<notin> seen st"
      "loadParents index (cap_commit current)
         (map int [0 ..< nat (NumParents index (cap_commit current))]) = Ok (parent0 # rest)"
      "NumParents index (cap_commit current) = 1"
      "canSkipCommit index (cap_commit current) treePath (cap_paths current)"
      "st' = st\<lparr>seen := insert (ID (cap_commit current)) (seen st),
                 heap := heapPush \<lparr>cap_commit = parent0,
                                    cap_paths = cap_paths current,
                                    cap_hashes = cap_hashes current\<rparr> (heap st)\<rparr>"
  | (general) parents n ch phs res rem where
      "ID (cap_commit current) \<notin> seen st"
      "loadParents index (cap_commit current)
         (map int [0 ..< nat (NumParents index (cap_commit current))]) = Ok parents"
      "\<not> (NumParents index (cap_commit current) = 1 \<and>
          canSkipCommit index (cap_commit current) treePath (cap_paths current))"
      "examineParents s treePath current parents
         ((replicate (length (cap_paths current)) 0,
           replicate (length (cap_paths current)) False), []) = Ok ((n, ch), phs)"
      "classifyPaths (cap_commit current) (zip (cap_paths current) (zip n ch))
         (resultNodes st, []) = (res, rem)"
      "st' = st\<lparr>seen := insert (ID (cap_commit current)) (seen st),
                 resultNodes := res,
                 heap := (if rem \<noteq> []
                          then pushParents (insert (ID (cap_commit current)) (seen st)) rem
                                 (zip parents phs) (heap st)
                          else heap st)\<rparr>"
proof (cases "ID (cap_commit current) \<in> seen st")
  case True
  with ok have "st' = st" by (simp add: processEntry_seen)
  with True show ?thesis by (rule skip)
next
  case notseen: False
  let ?lp = "loadParents index (cap_commit current)
               (map int [0 ..< nat (NumParents index (cap_commit current))])"
  show ?thesis
  proof (cases ?lp)
    case (Err e)
    then show ?thesis using loadParents_not_Err by blast
  next
    case Panic
    with ok notseen show ?thesis by (simp add: processEntry_def Let_def)
  next
    case (Ok parents)
    show ?thesis
    proof (cases "NumParents index (cap_commit current) = 1 \<and>
                  canSkipCommit index (cap_commit current) treePath (cap_paths current)")
      case True
      then have np: "NumParents index (cap_commit current) = 1"
        and sk: "canSkipCommit index (cap_commit current) treePath (cap_paths current)"
        by simp_all
      note eq = processEntry_fast [OF notseen Ok np sk]
      show ?thesis
      proof (cases parents)
        case Nil
        with eq ok show ?thesis by simp
      next
        case (Cons parent0 rest)
        with eq ok have "st' = st\<lparr>seen := insert (ID (cap_commit current)) (seen st),
                 heap := heapPush \<lparr>cap_commit = parent0,
                                    cap_paths = cap_paths current,
                                    cap_hashes = cap_hashes current\<rparr> (heap st)\<rparr>"
          by simp
        with notseen Ok Cons np sk show ?thesis by (intro fast) simp_all
      qed
    next
      case nofast: False
      let ?ex = "examineParents s treePath current parents
                   ((replicate (length (cap_paths current)) 0,
                     replicate (length (cap_paths current)) False), [])"
      show ?thesis
      proof (cases ?ex)
        case (Err e)
        then show ?thesis using examineParents_not_Err by blast
      next
        case Panic
        with ok notseen Ok nofast show ?thesis by (simp add: processEntry_def Let_def)
      next
        case exOk: (Ok r)
        obtain n ch phs where r: "r = ((n, ch), phs)" by (metis surj_pair)
        obtain res rem where cl: "classifyPaths (cap_commit current)
            (zip (cap_paths current) (zip n ch)) (resultNodes st, []) = (res, rem)"
          by (metis surj_pair)
        note eq = processEntry_general [OF notseen Ok nofast exOk [unfolded r] cl]
        with ok have "st' = st\<lparr>seen := insert (ID (cap_commit current)) (seen st),
                 resultNodes := res,
                 heap := (if rem \<noteq> []
                          then pushParents (insert (ID (cap_commit current)) (seen st)) rem
                                 (zip parents phs) (heap st)
                          else heap st)\<rparr>"
          by simp
        with notseen Ok nofast exOk r cl show ?thesis by (intro general) simp_all
      qed
    qed
  qed
qed



lemma set_heapPush: "set (heapPush x h) = insert x (set h)"
  by (induction h) auto

lemma heapOrdered_heapPush: "heapOrdered h \<Longrightarrow> heapOrdered (heapPush x h)"
  by (induction h) (auto simp: heapOrdered_def heapCompare_def entryTime_def set_heapPush split: if_splits)

lemma loadParents_times:
  "parentsNotLater index c0 \<Longrightarrow> ancestor index c0 c \<Longrightarrow> loadParents index c idxs = Ok ps \<Longrightarrow>
     \<forall>p \<in> set ps. CommitTime p \<le> CommitTime c \<and> ancestor index c0 p"
proof (induction idxs arbitrary: ps)
  case Nil
  then show ?case by simp
next
  case (Cons i rest)
  show ?case
  proof (cases "ParentNode index c i")
    case (Ok p)
    with Cons.prems(3) obtain ps' where ps': "loadParents index c rest = Ok ps'" and eq: "ps = p # ps'"
      by (auto split: result.splits)
    from Cons.prems(1,2) Ok have "CommitTime p \<le> CommitTime c"
      unfolding parentsNotLater_def by blast
    moreover from Cons.prems(2) Ok have "ancestor index c0 p"
      by (rule ancestor_parent)
    ultimately show ?thesis
      using Cons.IH [OF Cons.prems(1,2) ps'] eq by simp
  next
    case (Err e)
    with Cons.prems(3) show ?thesis by simp
  next
    case Panic
    with Cons.prems(3) show ?thesis by simp
  qed
qed

lemma pushParents_heapOrdered:
  "heapOrdered h \<Longrightarrow> heapOrdered (pushParents sn rem zs h)"
  by (induction sn rem zs h rule: pushParents.induct) (simp_all add: heapOrdered_heapPush)

lemma pushParents_commits:
  "e \<in> set (pushParents sn rem zs h) \<Longrightarrow> e \<in> set h \<or> cap_commit e \<in> fst ` set zs"
proof (induction sn rem zs h rule: pushParents.induct)
  case (1 sn remainingPaths h)
  then show ?case by simp
next
  case (2 sn remainingPaths parent parentHash rest h)
  show ?case
  proof (cases "ID parent \<in> sn")
    case True
    with 2 show ?thesis by auto
  next
    case False
    with 2 show ?thesis by (auto simp: set_heapPush)
  qed
qed

text \<open>
  The invariant of the main loop behind the order of processing: the heap is in
  descending order of commit time, bounded by the commit processed last, and holds
  ancestors of the starting commit only.
\<close>

lemma processEntry_heap:
  assumes mono: "parentsNotLater index c0"
    and step: "processEntry s index treePath st current = Ok st'"
    and anc: "ancestor index c0 (cap_commit current)"
    and ord: "heapOrdered (heap st)"
    and bound: "\<forall>e \<in> set (heap st). entryTime e \<le> entryTime current \<and> ancestor index c0 (cap_commit e)"
  shows "heapOrdered (heap st') \<and>
         (\<forall>e \<in> set (heap st'). entryTime e \<le> entryTime current \<and> ancestor index c0 (cap_commit e))"
  using step
proof (cases rule: processEntry_Ok_cases)
  case skip
  with ord bound show ?thesis by simp
next
  case (fast parent0 rest)
  from loadParents_times [OF mono anc fast(2)]
  have "CommitTime parent0 \<le> entryTime current" and "ancestor index c0 parent0"
    by (simp_all add: entryTime_def)
  with fast(5) ord bound show ?thesis
    by (simp add: heapOrdered_heapPush set_heapPush entryTime_def)
next
  case (general parents n ch phs res rem)
  from loadParents_times [OF mono anc general(2)]
  have pt: "\<forall>p \<in> set parents. CommitTime p \<le> entryTime current \<and> ancestor index c0 p"
    by (simp add: entryTime_def)
  show ?thesis
  proof (cases "rem = []")
    case True
    with general(6) ord bound show ?thesis by simp
  next
    case False
    with general(6) have h': "heap st' = pushParents (insert (ID (cap_commit current)) (seen st)) rem
                                 (zip parents phs) (heap st)" by simp
    have "entryTime e \<le> entryTime current \<and> ancestor index c0 (cap_commit e)"
      if "e \<in> set (heap st')" for e
    proof -
      from that h' pushParents_commits
      have "e \<in> set (heap st) \<or> cap_commit e \<in> fst ` set (zip parents phs)" by metis
      then show ?thesis
      proof
        assume "e \<in> set (heap st)"
        with bound show ?thesis by blast
      next
        assume "cap_commit e \<in> fst ` set (zip parents phs)"
        then have "cap_commit e \<in> set parents" by (auto dest: set_zip_leftD)
        with pt show ?thesis by (simp add: entryTime_def)
      qed
    qed
    with h' pushParents_heapOrdered [OF ord] show ?thesis by simp
  qed
qed

lemma processedCommits_order_aux:
  assumes mono: "parentsNotLater index c0"
  shows "heapOrdered (heap st) \<Longrightarrow>
     \<forall>e \<in> set (heap st). entryTime e \<le> B \<and> ancestor index c0 (cap_commit e) \<Longrightarrow>
     sorted_wrt (\<lambda>a b. b \<le> a) (map CommitTime (processedCommits k s index treePath st)) \<and>
     (\<forall>c \<in> set (processedCommits k s index treePath st). CommitTime c \<le> B)"
proof (induction k arbitrary: st B)
  case 0
  then show ?case by simp
next
  case (Suc k)
  show ?case
  proof (cases "heap st")
    case Nil
    then show ?thesis by simp
  next
    case (Cons current rest)
    from Suc.prems Cons have ord: "heapOrdered rest"
      and below: "\<forall>e \<in> set rest. entryTime e \<le> entryTime current \<and> ancestor index c0 (cap_commit e)"
      and cur: "entryTime current \<le> B"
      and anc: "ancestor index c0 (cap_commit current)"
      by (auto simp: heapOrdered_def)
    have cur': "CommitTime (cap_commit current) \<le> B"
      using cur by (simp add: entryTime_def)
    show ?thesis
    proof (cases "processEntry s index treePath (st\<lparr>heap := rest\<rparr>) current")
      case (Ok st')
      from processEntry_heap [OF mono Ok anc] ord below
      have "heapOrdered (heap st')"
        and "\<forall>e \<in> set (heap st'). entryTime e \<le> entryTime current \<and> ancestor index c0 (cap_commit e)"
        by simp_all
      from Suc.IH [OF this]
      have s: "sorted_wrt (\<lambda>a b. b \<le> a) (map CommitTime (processedCommits k s index treePath st'))"
        and b: "\<forall>c \<in> set (processedCommits k s index treePath st'). CommitTime c \<le> entryTime current"
        by simp_all
      have b': "\<forall>c \<in> set (processedCommits k s index treePath st'). CommitTime c \<le> B"
        using b cur by fastforce
      have b'': "\<forall>c \<in> set (processedCommits k s index treePath st').
                   CommitTime c \<le> CommitTime (cap_commit current)"
        using b by (simp add: entryTime_def)
      show ?thesis
      proof (cases "ID (cap_commit current) \<in> seen st")
        case True
        then have "processedCommits (Suc k) s index treePath st =
                     processedCommits k s index treePath st'"
          by (simp add: Cons Ok)
        with s b' show ?thesis by simp
      next
        case False
        then have "processedCommits (Suc k) s index treePath st =
                     cap_commit current # processedCommits k s index treePath st'"
          by (simp add: Cons Ok)
        with s b' b'' cur' show ?thesis by simp
      qed
    next
      case (Err e)
      with Cons cur' show ?thesis by simp
    next
      case Panic
      with Cons cur' show ?thesis by simp
    qed
  qed
qed

text \<open>
  C2. In a history where no parent reachable from the starting commit is later than its
  child, the commits that one invocation processes (pops and does not skip as seen) come
  in non-increasing order of commit time: this holds for the commits processed within any
  number of turns of the main loop.
\<close>

theorem processedCommits_sorted:
  assumes "parentsNotLater index c"
  shows "sorted_wrt (\<lambda>a b. b \<le> a)
           (map CommitTime
              (processedCommits k s index treePath (initialState c paths initialHashes)))"
proof -
  have "heapOrdered (heap (initialState c paths initialHashes))"
    by (simp add: initialState_def heapOrdered_def)
  moreover have "\<forall>e \<in> set (heap (initialState c paths initialHashes)).
                   entryTime e \<le> CommitTime c \<and> ancestor index c (cap_commit e)"
    by (simp add: initialState_def entryTime_def ancestor_self)
  ultimately show ?thesis
    using processedCommits_order_aux [OF assms] by blast
qed

lemmas ex_defs = exParent_def exChild_def exPlainStore_def exBrokenStore_def exLateParent_def
  exEarlyChild_def exSkewStore_def noBloom_def emptyBloom_def mkCommit_def mkStore_def fileTree_def
  storeWalker_def

lemma storeWalker_ParentNode_FullCommit:
  "ParentNode (storeWalker s bloom) (FullCommit co) i =
     (if Commit_ParentHashes co = [] \<or> i \<ge> int (length (Commit_ParentHashes co))
      then Err ErrParentNotFound
      else if i < 0 then Panic
      else (case GetCommit s (Commit_ParentHashes co ! nat i) of
              Ok parentCommit \<Rightarrow> Ok (FullCommit parentCommit)
            | Err e \<Rightarrow> Err e
            | Panic \<Rightarrow> Panic))"
  by (simp add: storeWalker_def NewGraphCommitNodeIndex_def graph_ParentNode_def sliceAt_def
        MemoryIndex_Index_def GetIndexByHash_def NewMemoryIndex_def Let_def)

lemma exPlain_ParentNode_child:
  "ParentNode (storeWalker exPlainStore noBloom) (FullCommit exChild) i = Ok p \<Longrightarrow>
     p = FullCommit exParent"
  by (auto simp: storeWalker_ParentNode_FullCommit GetCommit_def exChild_def exPlainStore_def
        mkCommit_def mkStore_def split: if_splits result.splits)

lemma exPlain_ParentNode_parent:
  "ParentNode (storeWalker exPlainStore noBloom) (FullCommit exParent) i \<noteq> Ok p"
  by (simp add: storeWalker_ParentNode_FullCommit exParent_def mkCommit_def)

lemma exPlain_ancestors:
  "ancestor (storeWalker exPlainStore noBloom) (FullCommit exChild) a \<Longrightarrow>
     a = FullCommit exChild \<or> a = FullCommit exParent"
proof (induction rule: ancestor.induct)
  case ancestor_self
  then show ?case by simp
next
  case (ancestor_parent a i p)
  then show ?case
    using exPlain_ParentNode_child exPlain_ParentNode_parent by blast
qed

lemma exPlain_parentsNotLater:
  "parentsNotLater (storeWalker exPlainStore noBloom) (FullCommit exChild)"
  unfolding parentsNotLater_def
proof (intro allI impI)
  fix a i p
  assume "ancestor (storeWalker exPlainStore noBloom) (FullCommit exChild) a"
    and pn: "ParentNode (storeWalker exPlainStore noBloom) a i = Ok p"
  from exPlain_ancestors [OF this(1)] pn have "a = FullCommit exChild" and "p = FullCommit exParent"
    using exPlain_ParentNode_child exPlain_ParentNode_parent by blast+
  then show "CommitTime p \<le> CommitTime a"
    by (simp add: CommitTime_def exChild_def exParent_def mkCommit_def)
qed

theorem processedCommits_sorted_witness:
  "parentsNotLater (storeWalker exPlainStore noBloom) (FullCommit exChild) \<and>
   map CommitTime
     (processedCommits 3 exPlainStore (storeWalker exPlainStore noBloom) []
        (initialState (FullCommit exChild) [''a''] [''a'' \<mapsto> 100])) = [20, 10] \<and>
   sorted_wrt (\<lambda>a b. b \<le> a)
     (map CommitTime
        (processedCommits 3 exPlainStore (storeWalker exPlainStore noBloom) []
           (initialState (FullCommit exChild) [''a''] [''a'' \<mapsto> 100])))"
proof -
  have tr: "map CommitTime
     (processedCommits 3 exPlainStore (storeWalker exPlainStore noBloom) []
        (initialState (FullCommit exChild) [''a''] [''a'' \<mapsto> 100])) = [20, 10]"
    by code_simp
  show ?thesis
    using exPlain_parentsNotLater tr
      processedCommits_sorted [OF exPlain_parentsNotLater, of 3 exPlainStore "[]" "[''a'']" "[''a'' \<mapsto> 100]"]
    by blast
qed

theorem processedCommits_order_counterexample:
  "getFileHashes exSkewStore (FullCommit exEarlyChild) [] [''a''] = Ok [''a'' \<mapsto> 100] \<and>
   map CommitTime
     (processedCommits 3 exSkewStore (storeWalker exSkewStore noBloom) []
        (initialState (FullCommit exEarlyChild) [''a''] [''a'' \<mapsto> 100])) = [10, 20]"
proof -
  have "getFileHashes exSkewStore (FullCommit exEarlyChild) [] [''a''] = Ok [''a'' \<mapsto> 100]"
    by (simp add: getFileHashes_def getCommitTree_def CommitNode_Tree_def GetTree_def ex_defs)
  moreover have "map CommitTime
     (processedCommits 3 exSkewStore (storeWalker exSkewStore noBloom) []
        (initialState (FullCommit exEarlyChild) [''a''] [''a'' \<mapsto> 100])) = [10, 20]"
    by code_simp
  ultimately show ?thesis by simp
qed

text \<open>
  C1. The history of commit 2, whose parent 1 has a tree that cannot be decoded:
  \<^verbatim>\<open>getFileHashes\<close> fails for the parent with the decode error, and the query returns
  a mapping and no error.
\<close>

theorem getLastCommitForPaths_swallows_error:
  "getFileHashes exBrokenStore (FullCommit exParent) [] [''a''] = Err ErrDecode \<and>
   getLastCommitForPaths 3 exBrokenStore (storeWalker exBrokenStore noBloom)
       (FullCommit exChild) [] [''a''] = Some (Ok [(''a'', exChild)])"
proof -
  have "getFileHashes exBrokenStore (FullCommit exParent) [] [''a''] = Err ErrDecode"
    by (simp add: getFileHashes_def getCommitTree_def CommitNode_Tree_def GetTree_def ex_defs)
  moreover have "getLastCommitForPaths 3 exBrokenStore (storeWalker exBrokenStore noBloom)
       (FullCommit exChild) [] [''a''] = Some (Ok [(''a'', exChild)])"
    by code_simp
  ultimately show ?thesis by simp
qed
lemma map_of_recordResult_kept:
  "map_of res path = Some x \<Longrightarrow> map_of (recordResult res q c) path = Some x"
  by (simp add: recordResult_def map_add_def)

lemma map_of_recordResult_other:
  "q \<noteq> path \<Longrightarrow> map_of (recordResult res q c) path = map_of res path"
  by (simp add: recordResult_def map_add_def split: option.splits)

lemma recordResult_reads:
  "map_of (recordResult res path c) path =
     (case map_of res path of None \<Rightarrow> Some c | Some x \<Rightarrow> Some x)"
  by (simp add: recordResult_def map_add_def split: option.splits)

lemma classifyPaths_step:
  "classifyPaths c ((p, n, changed) # rest) (res, rem) =
     (if n = 0 \<or> (n = 1 \<and> changed)
      then classifyPaths c rest (recordResult res p c, rem)
      else classifyPaths c rest (res, rem @ [p]))"
  by simp

lemma classifyPaths_kept:
  "classifyPaths c zs (res, rem) = (res', rem') \<Longrightarrow> map_of res path = Some x \<Longrightarrow>
     map_of res' path = Some x"
proof (induction zs arbitrary: res rem)
  case Nil
  then show ?case by simp
next
  case (Cons z zs)
  obtain p n changed where z: "z = (p, n, changed)" by (cases z) auto
  show ?case
  proof (cases "n = 0 \<or> (n = 1 \<and> changed)")
    case True
    with Cons.prems(1) z have "classifyPaths c zs (recordResult res p c, rem) = (res', rem')"
      by (simp only: classifyPaths_step if_True)
    moreover have "map_of (recordResult res p c) path = Some x"
      using Cons.prems(2) by (rule map_of_recordResult_kept)
    ultimately show ?thesis by (rule Cons.IH)
  next
    case False
    with Cons.prems(1) z have "classifyPaths c zs (res, rem @ [p]) = (res', rem')"
      by (simp only: classifyPaths_step if_False)
    then show ?thesis using Cons.prems(2) by (rule Cons.IH)
  qed
qed

lemma processEntry_kept:
  assumes "processEntry s index treePath st current = Ok st'"
    and "map_of (resultNodes st) path = Some x"
  shows "map_of (resultNodes st') path = Some x"
  using assms(1)
proof (cases rule: processEntry_Ok_cases)
  case skip
  with assms(2) show ?thesis by simp
next
  case (fast parent0 rest)
  with assms(2) show ?thesis by simp
next
  case (general parents n ch phs res rem)
  from classifyPaths_kept [OF general(5) assms(2)] general(6) show ?thesis by simp
qed

text \<open>
  C5. Once the result map holds a commit for a path, it holds that same commit after any
  number of further turns of the main loop: both places that record an answer (the path
  in no parent, the path changed against its one parent) write only when the map has no
  entry for the path.
\<close>

theorem resultNodes_never_overwritten:
  assumes "searchTurns k s index treePath st = Some st'"
    and "map_of (resultNodes st) path = Some x"
  shows "map_of (resultNodes st') path = Some x"
  using assms
proof (induction k arbitrary: st)
  case 0
  then show ?case by simp
next
  case (Suc k)
  from Suc.prems(1) obtain current rest st1 where
    h: "heap st = current # rest" and
    step: "processEntry s index treePath (st\<lparr>heap := rest\<rparr>) current = Ok st1" and
    rest: "searchTurns k s index treePath st1 = Some st'"
    by (auto split: list.splits result.splits)
  from Suc.prems(2) have "map_of (resultNodes (st\<lparr>heap := rest\<rparr>)) path = Some x" by simp
  from processEntry_kept [OF step this] have "map_of (resultNodes st1) path = Some x" .
  from Suc.IH [OF rest this] show ?case .
qed


theorem resultNodes_never_overwritten_witness:
  "\<exists>st2 st3.
     searchTurns 2 exMergeStore (storeWalker exMergeStore noBloom) [] exMergeStart = Some st2 \<and>
     searchTurns 1 exMergeStore (storeWalker exMergeStore noBloom) [] st2 = Some st3 \<and>
     map_of (resultNodes st2) ''f'' = Some (FullCommit exLeft) \<and>
     map_of (resultNodes st3) ''f'' = Some (FullCommit exLeft)"
proof -
  have "case searchTurns 2 exMergeStore (storeWalker exMergeStore noBloom) [] exMergeStart of
          None \<Rightarrow> False
        | Some st2 \<Rightarrow>
            map_of (resultNodes st2) ''f'' = Some (FullCommit exLeft) \<and>
            (case searchTurns 1 exMergeStore (storeWalker exMergeStore noBloom) [] st2 of
               None \<Rightarrow> False
             | Some st3 \<Rightarrow> True)"
    by code_simp
  then obtain st2 st3 where
    t2: "searchTurns 2 exMergeStore (storeWalker exMergeStore noBloom) [] exMergeStart = Some st2" and
    r2: "map_of (resultNodes st2) ''f'' = Some (FullCommit exLeft)" and
    t3: "searchTurns 1 exMergeStore (storeWalker exMergeStore noBloom) [] st2 = Some st3"
    by (auto split: option.splits)
  from resultNodes_never_overwritten [OF t3 r2] t2 t3 r2 show ?thesis by blast
qed

lemma mapGet_empty: "mapGet Map.empty path = ZeroHash"
  by (simp add: mapGet_def)

lemma parentsWithPath_replicate_empty: "parentsWithPath (replicate k Map.empty) path = 0"
  by (simp add: parentsWithPath_def mapGet_empty)

lemma parentsWithPath_Cons:
  "parentsWithPath (h # hs) path =
     (if mapGet h path \<noteq> ZeroHash then Suc (parentsWithPath hs path) else parentsWithPath hs path)"
  by (simp add: parentsWithPath_def)

lemma parentsWithPath_le: "parentsWithPath hs path \<le> length hs"
  by (simp add: parentsWithPath_def)

lemma countParent_length:
  "length n = length ps \<Longrightarrow> length ch = length ps \<Longrightarrow>
     length (fst (countParent h cur ps (n, ch))) = length ps \<and>
     length (snd (countParent h cur ps (n, ch))) = length ps"
  by (simp add: countParent_def)

lemma countParent_nth:
  "length n = length ps \<Longrightarrow> i < length ps \<Longrightarrow>
     fst (countParent h cur ps (n, ch)) ! i =
       (if mapGet h (ps ! i) \<noteq> ZeroHash then n ! i + 1 else n ! i)"
  by (simp add: countParent_def)

lemma examineParents_counts:
  "examineParents s treePath current parents ((n0, ch0), phs0) = Ok ((n, ch), phs) \<Longrightarrow>
   length n0 = length (cap_paths current) \<Longrightarrow> length ch0 = length (cap_paths current) \<Longrightarrow>
     (\<exists>new. phs = phs0 @ new \<and> length new = length parents \<and>
        (\<forall>i < length (cap_paths current).
           n ! i = n0 ! i + int (parentsWithPath new (cap_paths current ! i)))) \<and>
     length n = length (cap_paths current) \<and> length ch = length (cap_paths current)"
proof (induction parents arbitrary: n0 ch0 phs0)
  case Nil
  then show ?case by (simp add: parentsWithPath_def)
next
  case (Cons parent rest)
  show ?case
  proof (cases "getFileHashes s parent treePath (cap_paths current)")
    case (Ok h)
    obtain n1 ch1 where c: "countParent h (cap_hashes current) (cap_paths current) (n0, ch0) = (n1, ch1)"
      by (metis surj_pair)
    from countParent_length [OF Cons.prems(2,3), of h "cap_hashes current"] c
    have l1: "length n1 = length (cap_paths current)" and l2: "length ch1 = length (cap_paths current)"
      by simp_all
    from Cons.prems(1) Ok c
    have rec: "examineParents s treePath current rest ((n1, ch1), phs0 @ [h]) = Ok ((n, ch), phs)"
      by simp
    from Cons.IH [OF rec l1 l2] obtain new where
      phs: "phs = (phs0 @ [h]) @ new" and len: "length new = length rest" and
      cnt: "\<forall>i < length (cap_paths current).
              n ! i = n1 ! i + int (parentsWithPath new (cap_paths current ! i))" and
      ln: "length n = length (cap_paths current)" and lc: "length ch = length (cap_paths current)"
      by blast
    have "\<forall>i < length (cap_paths current).
            n ! i = n0 ! i + int (parentsWithPath (h # new) (cap_paths current ! i))"
    proof (intro allI impI)
      fix i assume i: "i < length (cap_paths current)"
      from countParent_nth [OF Cons.prems(2) i, of h "cap_hashes current" ch0] c
      have "n1 ! i = (if mapGet h (cap_paths current ! i) \<noteq> ZeroHash then n0 ! i + 1 else n0 ! i)"
        by simp
      with cnt i show "n ! i = n0 ! i + int (parentsWithPath (h # new) (cap_paths current ! i))"
        by (simp add: parentsWithPath_Cons)
    qed
    with phs len ln lc show ?thesis
      by (intro conjI exI [of _ "h # new"]) simp_all
  next
    case (Err e)
    with Cons.prems(1) have "n = n0" and "ch = ch0"
      and phs: "phs = phs0 @ replicate (Suc (length rest)) Map.empty"
      by simp_all
    with Cons.prems(2,3) show ?thesis
      by (intro conjI exI [of _ "replicate (Suc (length rest)) Map.empty"])
         (simp_all add: parentsWithPath_replicate_empty del: replicate_Suc)
  next
    case Panic
    with Cons.prems(1) show ?thesis by simp
  qed
qed

lemma classifyPaths_deferred:
  "classifyPaths c zs (res, rem) = (res', rem') \<Longrightarrow>
   \<forall>z \<in> set zs. fst z = path \<longrightarrow> 1 < fst (snd z) \<Longrightarrow>
     map_of res' path = map_of res path \<and>
     (path \<in> fst ` set zs \<or> path \<in> set rem \<longrightarrow> path \<in> set rem')"
proof (induction zs arbitrary: res rem)
  case Nil
  then show ?case by simp
next
  case (Cons z zs)
  obtain p n changed where z: "z = (p, n, changed)" by (cases z) auto
  from Cons.prems(2) have later: "\<forall>z \<in> set zs. fst z = path \<longrightarrow> 1 < fst (snd z)" by simp
  show ?case
  proof (cases "n = 0 \<or> (n = 1 \<and> changed)")
    case True
    with Cons.prems(2) z have ne: "p \<noteq> path" by auto
    from True Cons.prems(1) z have "classifyPaths c zs (recordResult res p c, rem) = (res', rem')"
      by (simp only: classifyPaths_step if_True)
    from Cons.IH [OF this later] ne z show ?thesis
      by (auto simp: map_of_recordResult_other)
  next
    case False
    with Cons.prems(1) z have "classifyPaths c zs (res, rem @ [p]) = (res', rem')"
      by (simp only: classifyPaths_step if_False)
    from Cons.IH [OF this later] z show ?thesis by auto
  qed
qed

lemma pushParents_keeps: "e \<in> set h \<Longrightarrow> e \<in> set (pushParents sn rem zs h)"
  by (induction sn rem zs h rule: pushParents.induct) (auto simp: set_heapPush)

lemma pushParents_pushed:
  "j < length zs \<Longrightarrow> ID (fst (zs ! j)) \<notin> sn \<Longrightarrow>
     \<lparr>cap_commit = fst (zs ! j),
      cap_paths = filter (\<lambda>p. mapGet (snd (zs ! j)) p \<noteq> ZeroHash) rem,
      cap_hashes = snd (zs ! j)\<rparr> \<in> set (pushParents sn rem zs h)"
proof (induction zs arbitrary: j h)
  case Nil
  then show ?case by simp
next
  case (Cons z zs)
  obtain parent parentHash where z: "z = (parent, parentHash)" by (cases z)
  show ?case
  proof (cases j)
    case 0
    with Cons.prems z show ?thesis
      by (simp add: pushParents_keeps set_heapPush)
  next
    case (Suc j')
    with Cons.prems have "j' < length zs" and "ID (fst (zs ! j')) \<notin> sn" by simp_all
    from Cons.IH [OF this] Suc z show ?thesis by simp
  qed
qed

lemma loadParents_length: "loadParents index c idxs = Ok ps \<Longrightarrow> length ps \<le> length idxs"
proof (induction idxs arbitrary: ps)
  case Nil
  then show ?case by simp
next
  case (Cons i rest)
  show ?case
  proof (cases "ParentNode index c i")
    case (Ok p)
    with Cons.prems obtain ps' where "loadParents index c rest = Ok ps'" and "ps = p # ps'"
      by (auto split: result.splits)
    with Cons.IH show ?thesis by auto
  next
    case (Err e)
    with Cons.prems show ?thesis by simp
  next
    case Panic
    with Cons.prems show ?thesis by simp
  qed
qed

text \<open>
  When \<^verbatim>\<open>getFileHashes\<close> succeeds for every parent, the per-parent hash maps are the
  maps it returns, parent by parent.
\<close>

lemma examineParents_all_ok:
  "\<forall>p \<in> set parents. \<exists>h. getFileHashes s p treePath (cap_paths current) = Ok h \<Longrightarrow>
     \<exists>acc'. examineParents s treePath current parents (acc, phs0) =
       Ok (acc', phs0 @ map (\<lambda>p. case getFileHashes s p treePath (cap_paths current) of
                                   Ok h \<Rightarrow> h | Err e \<Rightarrow> Map.empty | Panic \<Rightarrow> Map.empty) parents)"
proof (induction parents arbitrary: acc phs0)
  case Nil
  then show ?case by simp
next
  case (Cons parent rest)
  from Cons.prems obtain h where h: "getFileHashes s parent treePath (cap_paths current) = Ok h"
    and rest: "\<forall>p \<in> set rest. \<exists>h. getFileHashes s p treePath (cap_paths current) = Ok h"
    by auto
  from Cons.IH [OF rest, of "countParent h (cap_hashes current) (cap_paths current) acc" "phs0 @ [h]"]
  show ?case using h by simp
qed

lemma parentHashesOf_all_ok:
  assumes "\<forall>p \<in> set parents. \<exists>h. getFileHashes s p treePath (cap_paths current) = Ok h"
  shows "parentHashesOf s treePath current parents =
           map (\<lambda>p. case getFileHashes s p treePath (cap_paths current) of
                       Ok h \<Rightarrow> h | Err e \<Rightarrow> Map.empty | Panic \<Rightarrow> Map.empty) parents"
  using examineParents_all_ok [OF assms, of "(replicate (length (cap_paths current)) 0,
            replicate (length (cap_paths current)) False)" "[]"]
  by (auto simp: parentHashesOf_def)

text \<open>
  When a commit is processed and an active path has a non-sentinel hash in more than one
  of the per-parent hash maps that the step computes, the result map is left as it was at
  that path, and every parent not seen gets a frontier entry with its own hash map,
  holding the path exactly when that map has it.
\<close>

lemma processEntry_defers:
  assumes notseen: "ID (cap_commit current) \<notin> seen st"
    and step: "processEntry s index treePath st current = Ok st'"
    and path: "path \<in> set (cap_paths current)"
    and many: "1 < parentsWithPath
                 (parentHashesOf s treePath current (parentsOf index (cap_commit current))) path"
  shows "map_of (resultNodes st') path = map_of (resultNodes st) path \<and>
     (\<forall>j < length (parentsOf index (cap_commit current)).
        ID (parentsOf index (cap_commit current) ! j) \<notin> seen st' \<longrightarrow>
        (\<exists>e \<in> set (heap st').
           cap_commit e = parentsOf index (cap_commit current) ! j \<and>
           cap_hashes e =
             parentHashesOf s treePath current (parentsOf index (cap_commit current)) ! j \<and>
           (path \<in> set (cap_paths e) \<longleftrightarrow>
              mapGet (parentHashesOf s treePath current (parentsOf index (cap_commit current)) ! j)
                path \<noteq> ZeroHash)))"
  using step
proof (cases rule: processEntry_Ok_cases)
  case skip
  with notseen show ?thesis by simp
next
  case (fast parent0 rest)
  let ?parents = "parentsOf index (cap_commit current)"
  from fast(2,3) loadParents_length [OF fast(2)] have "length ?parents \<le> 1"
    by (simp add: parentsOf_def)
  moreover have "length (parentHashesOf s treePath current ?parents) \<le> length ?parents"
  proof (cases "examineParents s treePath current ?parents
                  ((replicate (length (cap_paths current)) 0,
                    replicate (length (cap_paths current)) False), [])")
    case (Ok r)
    obtain n ch phs where r: "r = ((n, ch), phs)" by (metis surj_pair)
    from examineParents_counts [OF Ok [unfolded r]] have "length phs = length ?parents" by auto
    with Ok r show ?thesis by (simp add: parentHashesOf_def)
  next
    case (Err e)
    then show ?thesis by (simp add: parentHashesOf_def)
  next
    case Panic
    then show ?thesis by (simp add: parentHashesOf_def)
  qed
  ultimately have "parentsWithPath (parentHashesOf s treePath current ?parents) path \<le> 1"
    using parentsWithPath_le [of "parentHashesOf s treePath current ?parents" path] by linarith
  with many show ?thesis by simp
next
  case (general parents n ch phs res rem)
  have ps: "parentsOf index (cap_commit current) = parents"
    using general(2) by (simp add: parentsOf_def)
  have hs: "parentHashesOf s treePath current parents = phs"
    using general(4) by (simp add: parentHashesOf_def)
  from examineParents_counts [OF general(4)] have
    len: "length phs = length parents" and
    cnt: "\<forall>i < length (cap_paths current).
            n ! i = int (parentsWithPath phs (cap_paths current ! i))" and
    ln: "length n = length (cap_paths current)" and lc: "length ch = length (cap_paths current)"
    by auto
  let ?zs = "zip (cap_paths current) (zip n ch)"
  have big: "\<forall>z \<in> set ?zs. fst z = path \<longrightarrow> 1 < fst (snd z)"
  proof (intro ballI impI)
    fix z assume "z \<in> set ?zs" and zp: "fst z = path"
    then obtain i where i: "i < length ?zs" and zi: "z = ?zs ! i"
      by (auto simp: in_set_conv_nth)
    from i ln lc have i': "i < length (cap_paths current)" by simp
    with zi ln lc have "fst z = cap_paths current ! i" and "fst (snd z) = n ! i" by simp_all
    with zp cnt i' many ps hs show "1 < fst (snd z)" by simp
  qed
  have inzs: "path \<in> fst ` set ?zs"
  proof -
    from path obtain i where i: "i < length (cap_paths current)" and "cap_paths current ! i = path"
      by (auto simp: in_set_conv_nth)
    from i ln lc have "i < length ?zs" by simp
    then have "?zs ! i \<in> set ?zs" by (rule nth_mem)
    moreover from i ln lc \<open>cap_paths current ! i = path\<close> have "fst (?zs ! i) = path" by simp
    ultimately show ?thesis by force
  qed
  from classifyPaths_deferred [OF general(5) big] inzs
  have res: "map_of res path = map_of (resultNodes st) path" and rem: "path \<in> set rem"
    by simp_all
  from rem have "rem \<noteq> []" by auto
  with general(6) have
    h': "heap st' = pushParents (insert (ID (cap_commit current)) (seen st)) rem
                      (zip parents phs) (heap st)" and
    sn: "seen st' = insert (ID (cap_commit current)) (seen st)" and
    r': "resultNodes st' = res"
    by simp_all
  have "\<exists>e \<in> set (heap st').
           cap_commit e = parents ! j \<and> cap_hashes e = phs ! j \<and>
           (path \<in> set (cap_paths e) \<longleftrightarrow> mapGet (phs ! j) path \<noteq> ZeroHash)"
    if j: "j < length parents" and ns: "ID (parents ! j) \<notin> seen st'" for j
  proof -
    let ?e = "\<lparr>cap_commit = parents ! j,
               cap_paths = filter (\<lambda>p. mapGet (phs ! j) p \<noteq> ZeroHash) rem,
               cap_hashes = phs ! j\<rparr>"
    from j len have jz: "j < length (zip parents phs)" by simp
    from j len have zj: "zip parents phs ! j = (parents ! j, phs ! j)" by simp
    from pushParents_pushed [OF jz, of "seen st'" rem "heap st"] ns zj
    have "?e \<in> set (pushParents (seen st') rem (zip parents phs) (heap st))" by simp
    with h' sn have "?e \<in> set (heap st')" by simp
    moreover have "path \<in> set (cap_paths ?e) \<longleftrightarrow> mapGet (phs ! j) path \<noteq> ZeroHash"
      using rem by simp
    ultimately show ?thesis by force
  qed
  with res r' ps hs show ?thesis by simp
qed

lemma mapGet_upd: "mapGet (m(p \<mapsto> h)) q = (if q = p then h else mapGet m q)"
  by (simp add: mapGet_def)

lemma fileHashesLoop_reads:
  "\<forall>q. mapGet m q = ZeroHash \<or> mapGet m q = pathHash t q \<Longrightarrow>
     mapGet (fileHashesLoop t ps m) p = (if p \<in> set ps then pathHash t p else mapGet m p)"
proof (induction ps arbitrary: m)
  case Nil
  then show ?case by simp
next
  case (Cons path rest)
  define m1 where "m1 =
     (if path \<noteq> [] then
        (case Tree_FindEntry t path of Some h \<Rightarrow> m(path \<mapsto> h) | None \<Rightarrow> m)
      else m(path \<mapsto> Tree_Hash t))"
  have step: "fileHashesLoop t (path # rest) m = fileHashesLoop t rest m1"
    by (simp add: m1_def split: option.splits)
  have at: "mapGet m1 path = pathHash t path"
    using Cons.prems [rule_format, of path]
    by (auto simp: m1_def mapGet_upd pathHash_def entryHash_def split: option.splits)
  have other: "q \<noteq> path \<Longrightarrow> mapGet m1 q = mapGet m q" for q
    by (auto simp: m1_def mapGet_upd split: option.splits)
  have inv: "\<forall>q. mapGet m1 q = ZeroHash \<or> mapGet m1 q = pathHash t q"
  proof
    fix q show "mapGet m1 q = ZeroHash \<or> mapGet m1 q = pathHash t q"
      using at other [of q] Cons.prems [rule_format, of q] by (cases "q = path") auto
  qed
  from Cons.IH [OF inv] have
    "mapGet (fileHashesLoop t rest m1) p = (if p \<in> set rest then pathHash t p else mapGet m1 p)" .
  with step at other [of p] show ?case by (cases "p = path") auto
qed

lemma fileHashesLoop_empty_reads:
  "mapGet (fileHashesLoop t ps Map.empty) p = (if p \<in> set ps then pathHash t p else ZeroHash)"
  using fileHashesLoop_reads [of Map.empty t ps p] by (simp add: mapGet_def)

lemma sameUpToZero_pathHash: "sameUpToZero t t' \<Longrightarrow> pathHash t = pathHash t'"
  by (auto simp: sameUpToZero_def pathHash_def)

lemma getFileHashes_sameReads:
  assumes "storesAgreeUpToZero s s'"
  shows "rel_result sameReads (getFileHashes s c treePath paths) (getFileHashes s' c treePath paths)"
proof -
  from assms have r: "rel_result sameUpToZero (getCommitTree s c treePath) (getCommitTree s' c treePath)"
    by (simp add: storesAgreeUpToZero_def)
  show ?thesis
  proof (cases "getCommitTree s c treePath")
    case (Ok t)
    with r obtain t' where t': "getCommitTree s' c treePath = Ok t'" and same: "sameUpToZero t t'"
      by (cases "getCommitTree s' c treePath") auto
    from sameUpToZero_pathHash [OF same]
    have "sameReads (fileHashesLoop t paths Map.empty) (fileHashesLoop t' paths Map.empty)"
      by (simp add: sameReads_def fileHashesLoop_empty_reads)
    with Ok t' show ?thesis by (simp add: getFileHashes_def)
  next
    case (Err e)
    with r have "getCommitTree s' c treePath = Err e"
      by (cases "getCommitTree s' c treePath") auto
    with Err show ?thesis by (simp add: getFileHashes_def sameReads_def)
  next
    case Panic
    with r have "getCommitTree s' c treePath = Panic"
      by (cases "getCommitTree s' c treePath") auto
    with Panic show ?thesis by (simp add: getFileHashes_def)
  qed
qed

lemma countParent_sameReads:
  "sameReads h h' \<Longrightarrow> sameReads cur cur' \<Longrightarrow>
     countParent h cur ps acc = countParent h' cur' ps acc"
  by (simp add: countParent_def sameReads_def)

lemma examineParents_sameReads:
  assumes agree: "storesAgreeUpToZero s s'" and cur: "sameEntry current current'"
  shows "list_all2 sameReads phs0 phs0' \<Longrightarrow>
     rel_result (\<lambda>r r'. fst r = fst r' \<and> list_all2 sameReads (snd r) (snd r'))
       (examineParents s treePath current parents (acc, phs0))
       (examineParents s' treePath current' parents (acc, phs0'))"
proof (induction parents arbitrary: acc phs0 phs0')
  case Nil
  then show ?case by simp
next
  case (Cons parent rest)
  from cur have paths: "cap_paths current' = cap_paths current"
    and reads: "sameReads (cap_hashes current) (cap_hashes current')"
    by (simp_all add: sameEntry_def)
  from getFileHashes_sameReads [OF agree, of parent treePath "cap_paths current"]
  have r: "rel_result sameReads (getFileHashes s parent treePath (cap_paths current))
                                (getFileHashes s' parent treePath (cap_paths current))" .
  show ?case
  proof (cases "getFileHashes s parent treePath (cap_paths current)")
    case (Ok h)
    with r obtain h' where h': "getFileHashes s' parent treePath (cap_paths current) = Ok h'"
      and hh: "sameReads h h'"
      by (cases "getFileHashes s' parent treePath (cap_paths current)") auto
    have c: "countParent h (cap_hashes current) (cap_paths current) acc =
             countParent h' (cap_hashes current') (cap_paths current) acc"
      using hh reads by (rule countParent_sameReads)
    have l: "list_all2 sameReads (phs0 @ [h]) (phs0' @ [h'])"
      using Cons.prems hh by (simp add: list_all2_appendI)
    from Cons.IH [OF l, of "countParent h (cap_hashes current) (cap_paths current) acc"]
    show ?thesis using Ok h' c paths by simp
  next
    case (Err e)
    with r have e': "getFileHashes s' parent treePath (cap_paths current) = Err e"
      by (cases "getFileHashes s' parent treePath (cap_paths current)") auto
    have "list_all2 sameReads (replicate (Suc (length rest)) Map.empty)
                              (replicate (Suc (length rest)) Map.empty)"
      by (simp add: list_all2_conv_all_nth sameReads_def del: replicate_Suc)
    with Cons.prems have "list_all2 sameReads
        (phs0 @ replicate (Suc (length rest)) Map.empty)
        (phs0' @ replicate (Suc (length rest)) Map.empty)"
      by (rule list_all2_appendI)
    with Err e' paths show ?thesis by (simp del: replicate_Suc)
  next
    case Panic
    with r have "getFileHashes s' parent treePath (cap_paths current) = Panic"
      by (cases "getFileHashes s' parent treePath (cap_paths current)") auto
    with Panic paths show ?thesis by simp
  qed
qed

lemma heapPush_sameEntry:
  "sameEntry x x' \<Longrightarrow> list_all2 sameEntry h h' \<Longrightarrow>
     list_all2 sameEntry (heapPush x h) (heapPush x' h')"
proof (induction h arbitrary: h')
  case Nil
  then show ?case by simp
next
  case (Cons y ys)
  from Cons.prems(2) obtain y' ys' where h': "h' = y' # ys'" and yy: "sameEntry y y'"
    and rest: "list_all2 sameEntry ys ys'"
    by (auto simp: list_all2_Cons1)
  from yy Cons.prems(1) have "heapCompare y x = heapCompare y' x'"
    by (simp add: heapCompare_def sameEntry_def)
  with Cons.IH [OF Cons.prems(1) rest] h' yy rest Cons.prems(1) show ?case by simp
qed

lemma pushParents_sameEntry:
  "list_all2 sameReads phs phs' \<Longrightarrow> length parents = length phs \<Longrightarrow>
   list_all2 sameEntry h h' \<Longrightarrow>
     list_all2 sameEntry (pushParents sn rem (zip parents phs) h)
                         (pushParents sn rem (zip parents phs') h')"
proof (induction parents arbitrary: phs phs' h h')
  case Nil
  then show ?case by simp
next
  case (Cons parent rest)
  from Cons.prems(2) obtain m ms where phs: "phs = m # ms" and l: "length rest = length ms"
    by (cases phs) auto
  from Cons.prems(1) phs obtain m' ms' where phs': "phs' = m' # ms'" and mm: "sameReads m m'"
    and r: "list_all2 sameReads ms ms'"
    by (auto simp: list_all2_Cons1)
  show ?case
  proof (cases "ID parent \<in> sn")
    case True
    with Cons.IH [OF r l Cons.prems(3)] phs phs' show ?thesis by simp
  next
    case False
    have f: "filter (\<lambda>path. mapGet m path \<noteq> ZeroHash) rem =
             filter (\<lambda>path. mapGet m' path \<noteq> ZeroHash) rem"
      using mm by (simp add: sameReads_def)
    have "sameEntry
            \<lparr>cap_commit = parent, cap_paths = filter (\<lambda>path. mapGet m path \<noteq> ZeroHash) rem,
             cap_hashes = m\<rparr>
            \<lparr>cap_commit = parent, cap_paths = filter (\<lambda>path. mapGet m' path \<noteq> ZeroHash) rem,
             cap_hashes = m'\<rparr>"
      using mm f by (simp add: sameEntry_def)
    from heapPush_sameEntry [OF this Cons.prems(3)]
    have "list_all2 sameEntry
            (heapPush \<lparr>cap_commit = parent, cap_paths = filter (\<lambda>path. mapGet m path \<noteq> ZeroHash) rem,
                       cap_hashes = m\<rparr> h)
            (heapPush \<lparr>cap_commit = parent, cap_paths = filter (\<lambda>path. mapGet m' path \<noteq> ZeroHash) rem,
                       cap_hashes = m'\<rparr> h')" .
    from Cons.IH [OF r l this] False phs phs' show ?thesis by simp
  qed
qed

lemma processEntry_unfold:
  assumes "ID (cap_commit current) \<notin> seen st"
    and "loadParents index (cap_commit current)
           (map int [0 ..< nat (NumParents index (cap_commit current))]) = Ok parents"
    and "\<not> (NumParents index (cap_commit current) = 1 \<and>
            canSkipCommit index (cap_commit current) treePath (cap_paths current))"
  shows "processEntry s index treePath st current =
     (case examineParents s treePath current parents
             ((replicate (length (cap_paths current)) 0,
               replicate (length (cap_paths current)) False), []) of
        Err e \<Rightarrow> Err e
      | Panic \<Rightarrow> Panic
      | Ok ((numOfParentsWithPath, pathChanged), parentHashes) \<Rightarrow>
          (case classifyPaths (cap_commit current)
                  (zip (cap_paths current) (zip numOfParentsWithPath pathChanged))
                  (resultNodes st, []) of
             (res, remainingPaths) \<Rightarrow>
               Ok (st\<lparr>seen := insert (ID (cap_commit current)) (seen st),
                       resultNodes := res,
                       heap := (if remainingPaths \<noteq> []
                                then pushParents (insert (ID (cap_commit current)) (seen st))
                                       remainingPaths (zip parents parentHashes) (heap st)
                                else heap st)\<rparr>)))"
proof -
  have c: "(NumParents index (cap_commit current) = 1 \<and>
            canSkipCommit index (cap_commit current) treePath (cap_paths current)) = False"
    using assms(3) by simp
  show ?thesis
    unfolding processEntry_def Let_def
    by (simp only: assms(1,2) c if_False result.case)
qed

lemma processEntry_sameState:
  assumes agree: "storesAgreeUpToZero s s'"
    and st: "sameState st st'"
    and cur: "sameEntry current current'"
  shows "rel_result sameState (processEntry s index treePath st current)
                              (processEntry s' index treePath st' current')"
proof -
  from cur have cc: "cap_commit current' = cap_commit current"
    and cp: "cap_paths current' = cap_paths current"
    and ch: "sameReads (cap_hashes current) (cap_hashes current')"
    by (simp_all add: sameEntry_def)
  from st have sn: "seen st' = seen st" and rn: "resultNodes st' = resultNodes st"
    and hp: "list_all2 sameEntry (heap st) (heap st')"
    by (simp_all add: sameState_def)
  show ?thesis
  proof (cases "ID (cap_commit current) \<in> seen st")
    case True
    with st cc sn show ?thesis by (simp add: processEntry_seen)
  next
    case notseen: False
    then have notseen': "ID (cap_commit current') \<notin> seen st'" by (simp add: cc sn)
    let ?lp = "loadParents index (cap_commit current)
                 (map int [0 ..< nat (NumParents index (cap_commit current))])"
    show ?thesis
    proof (cases ?lp)
      case (Err e)
      then show ?thesis using loadParents_not_Err by blast
    next
      case Panic
      with notseen notseen' show ?thesis
        by (simp add: processEntry_def Let_def cc)
    next
      case (Ok parents)
      then have Ok': "loadParents index (cap_commit current')
                 (map int [0 ..< nat (NumParents index (cap_commit current'))]) = Ok parents"
        by (simp add: cc)
      show ?thesis
      proof (cases "NumParents index (cap_commit current) = 1 \<and>
                    canSkipCommit index (cap_commit current) treePath (cap_paths current)")
        case True
        then have np: "NumParents index (cap_commit current) = 1"
          and sk: "canSkipCommit index (cap_commit current) treePath (cap_paths current)"
          by simp_all
        from np sk have np': "NumParents index (cap_commit current') = 1"
          and sk': "canSkipCommit index (cap_commit current') treePath (cap_paths current')"
          by (simp_all add: cc cp)
        note l = processEntry_fast [OF notseen Ok np sk, of s]
        note r = processEntry_fast [OF notseen' Ok' np' sk', of s']
        show ?thesis
        proof (cases parents)
          case Nil
          with l r show ?thesis by simp
        next
          case (Cons parent0 rest)
          have "sameEntry
                  \<lparr>cap_commit = parent0, cap_paths = cap_paths current, cap_hashes = cap_hashes current\<rparr>
                  \<lparr>cap_commit = parent0, cap_paths = cap_paths current', cap_hashes = cap_hashes current'\<rparr>"
            using cp ch by (simp add: sameEntry_def)
          from heapPush_sameEntry [OF this hp] Cons l r sn rn cc show ?thesis
            by (simp add: sameState_def)
        qed
      next
        case nofast: False
        then have nofast': "\<not> (NumParents index (cap_commit current') = 1 \<and>
            canSkipCommit index (cap_commit current') treePath (cap_paths current'))"
          by (simp add: cc cp)
        let ?init = "(replicate (length (cap_paths current)) (0::int),
                      replicate (length (cap_paths current)) False)"
        note l = processEntry_unfold [OF notseen Ok nofast, of s]
        note r = processEntry_unfold [OF notseen' Ok' nofast', of s', unfolded cp cc]
        have ex: "rel_result (\<lambda>r r'. fst r = fst r' \<and> list_all2 sameReads (snd r) (snd r'))
                    (examineParents s treePath current parents (?init, []))
                    (examineParents s' treePath current' parents (?init, []))"
          using examineParents_sameReads [OF agree cur, of "[]" "[]"] by simp
        show ?thesis
        proof (cases "examineParents s treePath current parents (?init, [])")
          case (Err e)
          then show ?thesis using examineParents_not_Err by blast
        next
          case Panic
          with ex have "examineParents s' treePath current' parents (?init, []) = Panic"
            by (cases "examineParents s' treePath current' parents (?init, [])") auto
          with Panic l r show ?thesis by simp
        next
          case exOk: (Ok x)
          obtain n chg phs where x: "x = ((n, chg), phs)" by (metis surj_pair)
          from ex exOk x obtain phs' where
            ex': "examineParents s' treePath current' parents (?init, []) = Ok ((n, chg), phs')"
            and pp: "list_all2 sameReads phs phs'"
            by (cases "examineParents s' treePath current' parents (?init, [])") auto
          from examineParents_counts [OF exOk [unfolded x]] have len: "length parents = length phs"
            by auto
          obtain res rem where cl: "classifyPaths (cap_commit current)
              (zip (cap_paths current) (zip n chg)) (resultNodes st, []) = (res, rem)"
            by (metis surj_pair)
          from l exOk x cl have lv: "processEntry s index treePath st current =
             Ok (st\<lparr>seen := insert (ID (cap_commit current)) (seen st),
                       resultNodes := res,
                       heap := (if rem \<noteq> []
                                then pushParents (insert (ID (cap_commit current)) (seen st))
                                       rem (zip parents phs) (heap st)
                                else heap st)\<rparr>)"
            by simp
          from r ex' cl rn sn have rv: "processEntry s' index treePath st' current' =
             Ok (st'\<lparr>seen := insert (ID (cap_commit current)) (seen st),
                       resultNodes := res,
                       heap := (if rem \<noteq> []
                                then pushParents (insert (ID (cap_commit current)) (seen st))
                                       rem (zip parents phs') (heap st')
                                else heap st')\<rparr>)"
            by simp
          from pushParents_sameEntry [OF pp len hp] hp
          show ?thesis unfolding lv rv by (simp add: sameState_def)
        qed
      qed
    qed
  qed
qed

lemma searchLoop_sameState:
  assumes agree: "storesAgreeUpToZero s s'"
  shows "sameState st st' \<Longrightarrow>
     rel_option (rel_result sameState) (searchLoop k s index treePath st)
                                       (searchLoop k s' index treePath st')"
proof (induction k arbitrary: st st')
  case 0
  then show ?case by simp
next
  case (Suc k)
  from Suc.prems have hp: "list_all2 sameEntry (heap st) (heap st')"
    by (simp add: sameState_def)
  show ?case
  proof (cases "heap st")
    case Nil
    with hp have "heap st' = []" by simp
    with Nil Suc.prems show ?thesis by simp
  next
    case (Cons current rest)
    with hp obtain current' rest' where h': "heap st' = current' # rest'"
      and cur: "sameEntry current current'" and rr: "list_all2 sameEntry rest rest'"
      by (auto simp: list_all2_Cons1)
    from Suc.prems rr have popped: "sameState (st\<lparr>heap := rest\<rparr>) (st'\<lparr>heap := rest'\<rparr>)"
      by (simp add: sameState_def)
    note step = processEntry_sameState [OF agree popped cur, of index treePath]
    show ?thesis
    proof (cases "processEntry s index treePath (st\<lparr>heap := rest\<rparr>) current")
      case (Ok st1)
      with step obtain st1' where
        o': "processEntry s' index treePath (st'\<lparr>heap := rest'\<rparr>) current' = Ok st1'"
        and s1: "sameState st1 st1'"
        by (cases "processEntry s' index treePath (st'\<lparr>heap := rest'\<rparr>) current'") auto
      from Suc.IH [OF s1] Cons h' Ok o' show ?thesis by simp
    next
      case (Err e)
      with step have "processEntry s' index treePath (st'\<lparr>heap := rest'\<rparr>) current' = Err e"
        by (cases "processEntry s' index treePath (st'\<lparr>heap := rest'\<rparr>) current'") auto
      with Cons h' Err show ?thesis by simp
    next
      case Panic
      with step have "processEntry s' index treePath (st'\<lparr>heap := rest'\<rparr>) current' = Panic"
        by (cases "processEntry s' index treePath (st'\<lparr>heap := rest'\<rparr>) current'") auto
      with Cons h' Panic show ?thesis by simp
    qed
  qed
qed

lemma getLastCommitForPaths_sameUpToZero:
  assumes "storesAgreeUpToZero s s'"
  shows "getLastCommitForPaths fuel s index c treePath paths =
         getLastCommitForPaths fuel s' index c treePath paths"
proof -
  from getFileHashes_sameReads [OF assms, of c treePath paths]
  have r: "rel_result sameReads (getFileHashes s c treePath paths) (getFileHashes s' c treePath paths)" .
  show ?thesis
  proof (cases "getFileHashes s c treePath paths")
    case (Ok m)
    with r obtain m' where m': "getFileHashes s' c treePath paths = Ok m'" and mm: "sameReads m m'"
      by (cases "getFileHashes s' c treePath paths") auto
    have init: "sameState (initialState c paths m) (initialState c paths m')"
      using mm by (simp add: sameState_def initialState_def sameEntry_def)
    from searchLoop_sameState [OF assms init, of fuel index treePath]
    have loop: "rel_option (rel_result sameState)
                  (searchLoop fuel s index treePath (initialState c paths m))
                  (searchLoop fuel s' index treePath (initialState c paths m'))" .
    show ?thesis
    proof (cases "searchLoop fuel s index treePath (initialState c paths m)")
      case None
      with loop have "searchLoop fuel s' index treePath (initialState c paths m') = None"
        by (cases "searchLoop fuel s' index treePath (initialState c paths m')") auto
      with None Ok m' show ?thesis by (simp add: getLastCommitForPaths_def)
    next
      case (Some x)
      with loop obtain x' where
        x': "searchLoop fuel s' index treePath (initialState c paths m') = Some x'"
        and xx: "rel_result sameState x x'"
        by (cases "searchLoop fuel s' index treePath (initialState c paths m')") auto
      from xx have "(case x of Ok st \<Rightarrow> Some (materialize index (resultNodes st))
                      | Err e \<Rightarrow> Some (Err e) | Panic \<Rightarrow> Some Panic) =
                    (case x' of Ok st \<Rightarrow> Some (materialize index (resultNodes st))
                      | Err e \<Rightarrow> Some (Err e) | Panic \<Rightarrow> Some Panic)"
        by (cases x; cases x') (auto simp: sameState_def)
      with Some x' Ok m' show ?thesis
        by (simp add: getLastCommitForPaths_def split: result.splits)
    qed
  next
    case (Err e)
    with r have "getFileHashes s' c treePath paths = Err e"
      by (cases "getFileHashes s' c treePath paths") auto
    with Err show ?thesis by (simp add: getLastCommitForPaths_def)
  next
    case Panic
    with r have "getFileHashes s' c treePath paths = Panic"
      by (cases "getFileHashes s' c treePath paths") auto
    with Panic show ?thesis by (simp add: getLastCommitForPaths_def)
  qed
qed

lemma fileHashesLoop_absent:
  "m path = None \<Longrightarrow> path \<noteq> [] \<Longrightarrow> Tree_FindEntry t path = None \<Longrightarrow>
     fileHashesLoop t ps m path = None"
proof (induction ps arbitrary: m)
  case Nil
  then show ?case by simp
next
  case (Cons p ps)
  show ?case
  proof (cases "p = path")
    case True
    with Cons show ?thesis by simp
  next
    case False
    with Cons.prems have "\<And>h. (m(p \<mapsto> h)) path = None" by simp
    with Cons show ?thesis by (simp split: option.splits)
  qed
qed

text \<open>
  C10. \<^verbatim>\<open>getFileHashes\<close> leaves a path that the tree has no entry for out of its map;
  a map read is different from the zero hash exactly when the map holds a non-zero hash
  for the path; and the query gives the same outcome on two stores whose trees differ
  only in having an entry with the zero hash where the other has no entry.
\<close>

theorem zero_hash_entry_is_absent:
  assumes "storesAgreeUpToZero s s'"
  shows "getLastCommitForPaths fuel s index c treePath paths =
           getLastCommitForPaths fuel s' index c treePath paths \<and>
         (\<forall>t m path. getCommitTree s c treePath = Ok t \<longrightarrow>
            getFileHashes s c treePath paths = Ok m \<longrightarrow>
            path \<noteq> [] \<longrightarrow> Tree_FindEntry t path = None \<longrightarrow> m path = None) \<and>
         (\<forall>m path. mapGet m path \<noteq> ZeroHash \<longleftrightarrow> (\<exists>h. m path = Some h \<and> h \<noteq> ZeroHash))"
proof (intro conjI allI impI)
  show "getLastCommitForPaths fuel s index c treePath paths =
           getLastCommitForPaths fuel s' index c treePath paths"
    using assms by (rule getLastCommitForPaths_sameUpToZero)
next
  fix t m path
  assume "getCommitTree s c treePath = Ok t" and "getFileHashes s c treePath paths = Ok m"
    and "path \<noteq> []" and "Tree_FindEntry t path = None"
  then show "m path = None"
    using fileHashesLoop_absent [of Map.empty path t paths]
    by (auto simp: getFileHashes_def)
next
  fix m :: "string \<rightharpoonup> Hash" and path
  show "mapGet m path \<noteq> ZeroHash \<longleftrightarrow> (\<exists>h. m path = Some h \<and> h \<noteq> ZeroHash)"
    by (simp add: mapGet_def split: option.splits)
qed

lemma storesAgreeUpToZero_trees:
  assumes "\<forall>h. rel_stored
             (\<lambda>t t'. sameUpToZero t t' \<and>
                      (\<forall>treePath. rel_result sameUpToZero (Tree_Tree t treePath) (Tree_Tree t' treePath)))
             (treeObjects s h) (treeObjects s' h)"
  shows "storesAgreeUpToZero s s'"
  unfolding storesAgreeUpToZero_def
proof (intro allI)
  fix c treePath
  have g: "rel_result
             (\<lambda>t t'. sameUpToZero t t' \<and>
                      (\<forall>treePath. rel_result sameUpToZero (Tree_Tree t treePath) (Tree_Tree t' treePath)))
             (GetTree s h) (GetTree s' h)" for h
    using assms [rule_format, of h]
    by (cases "treeObjects s h"; cases "treeObjects s' h") (simp_all add: GetTree_def)
  have "rel_result
          (\<lambda>t t'. sameUpToZero t t' \<and>
                   (\<forall>treePath. rel_result sameUpToZero (Tree_Tree t treePath) (Tree_Tree t' treePath)))
          (CommitNode_Tree s c) (CommitNode_Tree s' c)"
    using g by (simp add: CommitNode_Tree_def split: CommitNode.splits)
  then show "rel_result sameUpToZero (getCommitTree s c treePath) (getCommitTree s' c treePath)"
    by (cases "CommitNode_Tree s c"; cases "CommitNode_Tree s' c") (simp_all add: getCommitTree_def)
qed

lemma exStores_agree: "storesAgreeUpToZero exZeroStore exAbsentStore"
proof (rule storesAgreeUpToZero_trees, rule allI)
  fix h :: Hash
  have same: "sameUpToZero (fileTree 10 [(''a'', 100), (''z'', 0)]) (fileTree 10 [(''a'', 100)])"
    by (simp add: sameUpToZero_def fileTree_def entryHash_def ZeroHash_def)
  have refl: "sameUpToZero t t" for t
    by (simp add: sameUpToZero_def)
  show "rel_stored
          (\<lambda>t t'. sameUpToZero t t' \<and>
                   (\<forall>treePath. rel_result sameUpToZero (Tree_Tree t treePath) (Tree_Tree t' treePath)))
          (treeObjects exZeroStore h) (treeObjects exAbsentStore h)"
    using same refl by (simp add: exZeroStore_def exAbsentStore_def mkStore_def fileTree_def)
qed

theorem zero_hash_entry_is_absent_witness:
  "storesAgreeUpToZero exZeroStore exAbsentStore \<and>
   getLastCommitForPaths 3 exZeroStore (storeWalker exZeroStore noBloom)
       (FullCommit exChild) [] [''z''] = Some (Ok [(''z'', exChild)]) \<and>
   getLastCommitForPaths 3 exAbsentStore (storeWalker exZeroStore noBloom)
       (FullCommit exChild) [] [''z''] = Some (Ok [(''z'', exChild)])"
proof -
  have "getLastCommitForPaths 3 exZeroStore (storeWalker exZeroStore noBloom)
       (FullCommit exChild) [] [''z''] = Some (Ok [(''z'', exChild)])"
    by code_simp
  with zero_hash_entry_is_absent [OF exStores_agree, of 3 "storeWalker exZeroStore noBloom"
         "FullCommit exChild" "[]" "[''z'']"] exStores_agree
  show ?thesis by simp
qed
lemma getFileHashes_reads:
  "getFileHashes s c treePath ps = Ok m \<Longrightarrow> path \<in> set ps \<Longrightarrow>
     contentAt s c treePath path = Ok (mapGet m path)"
proof (cases "getCommitTree s c treePath")
  case (Ok t)
  assume "getFileHashes s c treePath ps = Ok m" and "path \<in> set ps"
  with Ok have "m = fileHashesLoop t ps Map.empty" by (simp add: getFileHashes_def)
  moreover have "mapGet (fileHashesLoop t [path] Map.empty) path = pathHash t path"
    by (subst fileHashesLoop_empty_reads) simp
  ultimately show ?thesis
    using Ok \<open>path \<in> set ps\<close>
    by (simp add: contentAt_def getFileHashes_def fileHashesLoop_empty_reads
          del: fileHashesLoop.simps)
next
  case (Err e)
  assume "getFileHashes s c treePath ps = Ok m"
  with Err show ?thesis
    by (auto simp: contentAt_def getFileHashes_def mapGet_def split: if_splits)
next
  case Panic
  assume "getFileHashes s c treePath ps = Ok m"
  with Panic show ?thesis by (simp add: getFileHashes_def)
qed


lemma loadParents_all_loaded:
  "\<forall>i \<in> set idxs. \<exists>p. ParentNode index c i = Ok p \<Longrightarrow>
     \<exists>ps. loadParents index c idxs = Ok ps \<and> length ps = length idxs \<and>
          (\<forall>k < length idxs. ParentNode index c (idxs ! k) = Ok (ps ! k))"
proof (induction idxs)
  case Nil
  then show ?case by simp
next
  case (Cons i rest)
  from Cons.prems obtain p where p: "ParentNode index c i = Ok p" by auto
  from Cons.prems have "\<forall>i \<in> set rest. \<exists>p. ParentNode index c i = Ok p" by simp
  from Cons.IH [OF this] obtain ps where ps: "loadParents index c rest = Ok ps"
    and len: "length ps = length rest"
    and nth: "\<forall>k < length rest. ParentNode index c (rest ! k) = Ok (ps ! k)"
    by blast
  have "\<forall>k < length (i # rest). ParentNode index c ((i # rest) ! k) = Ok ((p # ps) ! k)"
  proof (intro allI impI)
    fix k assume "k < length (i # rest)"
    with p nth show "ParentNode index c ((i # rest) ! k) = Ok ((p # ps) ! k)"
      by (cases k) simp_all
  qed
  with p ps len show ?case by simp
qed

text \<open>
  When the walker has a parent for every position below \<^verbatim>\<open>NumParents\<close>, the parents
  loaded for a commit are all of them, in their order.
\<close>

lemma parentsOf_all_loaded:
  assumes "\<forall>i < nat (NumParents index c). \<exists>p. ParentNode index c (int i) = Ok p"
  shows "length (parentsOf index c) = nat (NumParents index c) \<and>
         (\<forall>i < nat (NumParents index c). ParentNode index c (int i) = Ok (parentsOf index c ! i))"
proof -
  let ?idxs = "map int [0 ..< nat (NumParents index c)]"
  from assms have "\<forall>i \<in> set ?idxs. \<exists>p. ParentNode index c i = Ok p" by auto
  from loadParents_all_loaded [OF this] obtain ps where
    ps: "loadParents index c ?idxs = Ok ps" and len: "length ps = length ?idxs" and
    nth: "\<forall>k < length ?idxs. ParentNode index c (?idxs ! k) = Ok (ps ! k)"
    by blast
  from ps have "parentsOf index c = ps" by (simp add: parentsOf_def)
  with len nth show ?thesis by simp
qed

lemma hashesRead_Ok:
  "hashesRead s treePath ps p \<longleftrightarrow> (\<exists>h. getFileHashes s p treePath ps = Ok h)"
  by (simp add: hashesRead_def split: result.splits)

lemma presentIn_reads:
  "getFileHashes s p treePath ps = Ok h \<Longrightarrow> path \<in> set ps \<Longrightarrow>
     presentIn s treePath p path \<longleftrightarrow> mapGet h path \<noteq> ZeroHash"
  using getFileHashes_reads [of s p treePath ps h path] by (simp add: presentIn_def)

lemma parentsWithPath_present:
  assumes "\<forall>p \<in> set parents. hashesRead s treePath ps p" and "path \<in> set ps"
  shows "parentsWithPath
           (map (\<lambda>p. case getFileHashes s p treePath ps of
                       Ok h \<Rightarrow> h | Err e \<Rightarrow> Map.empty | Panic \<Rightarrow> Map.empty) parents) path =
         parentsPresent s treePath parents path"
  using assms(1)
proof (induction parents)
  case Nil
  then show ?case by (simp add: parentsWithPath_def parentsPresent_def)
next
  case (Cons p rest)
  from Cons.prems obtain h where h: "getFileHashes s p treePath ps = Ok h"
    by (auto simp: hashesRead_Ok)
  from Cons.prems have "\<forall>p \<in> set rest. hashesRead s treePath ps p" by simp
  from Cons.IH [OF this] presentIn_reads [OF h assms(2)] h
  show ?case by (simp add: parentsWithPath_def parentsPresent_def)
qed

text \<open>
  C4. When a commit is processed, the hashes of every parent loaded for it are read, and
  an active path is present in more than one of those parents, then, whatever the hashes
  of the path are, the result map is left as it was at that path, and every parent not
  seen gets a frontier entry with the hashes read for that parent, holding the path
  exactly when the path is present in that parent.
\<close>

theorem merge_path_deferred:
  assumes notseen: "ID (cap_commit current) \<notin> seen st"
    and step: "processEntry s index treePath st current = Ok st'"
    and path: "path \<in> set (cap_paths current)"
    and allread: "\<forall>p \<in> set (parentsOf index (cap_commit current)).
                    hashesRead s treePath (cap_paths current) p"
    and many: "1 < parentsPresent s treePath (parentsOf index (cap_commit current)) path"
  shows "map_of (resultNodes st') path = map_of (resultNodes st) path \<and>
     (\<forall>j < length (parentsOf index (cap_commit current)).
        ID (parentsOf index (cap_commit current) ! j) \<notin> seen st' \<longrightarrow>
        (\<exists>e \<in> set (heap st').
           cap_commit e = parentsOf index (cap_commit current) ! j \<and>
           getFileHashes s (cap_commit e) treePath (cap_paths current) = Ok (cap_hashes e) \<and>
           (path \<in> set (cap_paths e) \<longleftrightarrow> presentIn s treePath (cap_commit e) path)))"
proof -
  let ?parents = "parentsOf index (cap_commit current)"
  let ?phs = "parentHashesOf s treePath current ?parents"
  from allread have ok: "\<forall>p \<in> set ?parents. \<exists>h. getFileHashes s p treePath (cap_paths current) = Ok h"
    by (simp add: hashesRead_Ok)
  note phs = parentHashesOf_all_ok [OF ok]
  from many parentsWithPath_present [OF allread path]
  have many': "1 < parentsWithPath ?phs path" by (simp add: phs)
  note main = processEntry_defers [OF notseen step path many']
  have "\<exists>e \<in> set (heap st').
           cap_commit e = ?parents ! j \<and>
           getFileHashes s (cap_commit e) treePath (cap_paths current) = Ok (cap_hashes e) \<and>
           (path \<in> set (cap_paths e) \<longleftrightarrow> presentIn s treePath (cap_commit e) path)"
    if j: "j < length ?parents" and ns: "ID (?parents ! j) \<notin> seen st'" for j
  proof -
    from main [THEN conjunct2, rule_format, OF j ns] obtain e where
      e: "e \<in> set (heap st')" and c: "cap_commit e = ?parents ! j" and
      h: "cap_hashes e = ?phs ! j" and
      p: "path \<in> set (cap_paths e) \<longleftrightarrow> mapGet (?phs ! j) path \<noteq> ZeroHash"
      by blast
    from j have "?parents ! j \<in> set ?parents" by (rule nth_mem)
    with ok obtain m where m: "getFileHashes s (?parents ! j) treePath (cap_paths current) = Ok m"
      by blast
    from j m have "?phs ! j = m" by (simp add: phs)
    with c h p m presentIn_reads [OF m path] e show ?thesis by auto
  qed
  with main [THEN conjunct1] show ?thesis by blast
qed

theorem merge_path_deferred_witness:
  "parentsOf (storeWalker exMergeStore noBloom) (FullCommit exMerge) =
     [FullCommit exLeft, FullCommit exRight] \<and>
   hashesRead exMergeStore [] [''f''] (FullCommit exLeft) \<and>
   hashesRead exMergeStore [] [''f''] (FullCommit exRight) \<and>
   parentsPresent exMergeStore [] [FullCommit exLeft, FullCommit exRight] ''f'' = 2 \<and>
   (\<exists>st'. processEntry exMergeStore (storeWalker exMergeStore noBloom) [] exEmptyState exMergeEntry
              = Ok st' \<and>
          map_of (resultNodes st') ''f'' = None \<and>
          (\<exists>e \<in> set (heap st'). cap_commit e = FullCommit exLeft \<and> ''f'' \<in> set (cap_paths e)) \<and>
          (\<exists>e \<in> set (heap st'). cap_commit e = FullCommit exRight \<and> ''f'' \<in> set (cap_paths e)))"
proof -
  let ?W = "storeWalker exMergeStore noBloom"
  let ?ps = "[FullCommit exLeft, FullCommit exRight]"
  have ps: "parentsOf ?W (cap_commit exMergeEntry) = ?ps"
    by code_simp
  have ps': "parentsOf ?W (FullCommit exMerge) = ?ps"
    by code_simp
  have paths: "cap_paths exMergeEntry = [''f'']"
    by (simp add: exMergeEntry_def)
  have r0: "hashesRead exMergeStore [] [''f''] (FullCommit exLeft)"
    and r1: "hashesRead exMergeStore [] [''f''] (FullCommit exRight)"
    by code_simp+
  have cnt: "parentsPresent exMergeStore [] ?ps ''f'' = 2"
    by code_simp
  have p0: "presentIn exMergeStore [] (FullCommit exLeft) ''f''"
    and p1: "presentIn exMergeStore [] (FullCommit exRight) ''f''"
    by code_simp+
  have notseen: "ID (cap_commit exMergeEntry) \<notin> seen exEmptyState"
    by (simp add: exEmptyState_def)
  have path: "''f'' \<in> set (cap_paths exMergeEntry)"
    by (simp add: exMergeEntry_def)
  have "case processEntry exMergeStore ?W [] exEmptyState exMergeEntry of
          Ok st' \<Rightarrow> ID (FullCommit exLeft) \<notin> seen st' \<and> ID (FullCommit exRight) \<notin> seen st'
        | Err e \<Rightarrow> False
        | Panic \<Rightarrow> False"
    by code_simp
  then obtain st' where
    step: "processEntry exMergeStore ?W [] exEmptyState exMergeEntry = Ok st'" and
    s0: "ID (FullCommit exLeft) \<notin> seen st'" and s1: "ID (FullCommit exRight) \<notin> seen st'"
    by (auto split: result.splits)
  have allread: "\<forall>p \<in> set (parentsOf ?W (cap_commit exMergeEntry)).
                   hashesRead exMergeStore [] (cap_paths exMergeEntry) p"
    using r0 r1 by (simp add: ps paths)
  have many: "1 < parentsPresent exMergeStore [] (parentsOf ?W (cap_commit exMergeEntry)) ''f''"
    using cnt by (simp add: ps)
  note main = merge_path_deferred [OF notseen step path allread many, unfolded ps]
  have r: "map_of (resultNodes st') ''f'' = None"
    using main [THEN conjunct1] by (simp add: exEmptyState_def)
  have l0: "(0::nat) < length ?ps" and l1: "(1::nat) < length ?ps"
    by simp_all
  have n0: "ID (?ps ! 0) \<notin> seen st'"
    using s0 by simp
  have n1: "ID (?ps ! 1) \<notin> seen st'"
    using s1 by simp
  from main [THEN conjunct2, rule_format, OF l0 n0] p0
  have e0: "\<exists>e \<in> set (heap st'). cap_commit e = FullCommit exLeft \<and> ''f'' \<in> set (cap_paths e)"
    by auto
  from main [THEN conjunct2, rule_format, OF l1 n1] p1
  have e1: "\<exists>e \<in> set (heap st'). cap_commit e = FullCommit exRight \<and> ''f'' \<in> set (cap_paths e)"
    by auto
  from ps' r0 r1 cnt step r e0 e1 show ?thesis by blast
qed

theorem merge_path_deferred_counterexample:
  "parentsOf (storeWalker exOctopusStore noBloom) (FullCommit exOctopus) =
     [FullCommit exParent, FullCommit exSecond, FullCommit exThird] \<and>
   getFileHashes exOctopusStore (FullCommit exParent) [] [''f''] = Err ErrDecode \<and>
   presentIn exOctopusStore [] (FullCommit exSecond) ''f'' \<and>
   presentIn exOctopusStore [] (FullCommit exThird) ''f'' \<and>
   parentsPresent exOctopusStore []
     [FullCommit exParent, FullCommit exSecond, FullCommit exThird] ''f'' = 2 \<and>
   (\<exists>st'. processEntry exOctopusStore (storeWalker exOctopusStore noBloom) [] exEmptyState
             exOctopusEntry = Ok st' \<and>
          resultNodes st' = [(''f'', FullCommit exOctopus)] \<and> heap st' = []) \<and>
   getLastCommitForPaths 2 exOctopusStore (storeWalker exOctopusStore noBloom)
       (FullCommit exOctopus) [] [''f''] = Some (Ok [(''f'', exOctopus)])"
proof -
  let ?W = "storeWalker exOctopusStore noBloom"
  have "parentsOf ?W (FullCommit exOctopus) =
          [FullCommit exParent, FullCommit exSecond, FullCommit exThird]"
    by code_simp
  moreover have "getFileHashes exOctopusStore (FullCommit exParent) [] [''f''] = Err ErrDecode"
    by (simp add: getFileHashes_def getCommitTree_def CommitNode_Tree_def GetTree_def
          exOctopusStore_def exParent_def mkCommit_def mkStore_def)
  moreover have "presentIn exOctopusStore [] (FullCommit exSecond) ''f''"
    and "presentIn exOctopusStore [] (FullCommit exThird) ''f''"
    by code_simp+
  moreover have "parentsPresent exOctopusStore []
     [FullCommit exParent, FullCommit exSecond, FullCommit exThird] ''f'' = 2"
    by code_simp
  moreover have "case processEntry exOctopusStore ?W [] exEmptyState exOctopusEntry of
          Ok st' \<Rightarrow> resultNodes st' = [(''f'', FullCommit exOctopus)] \<and> heap st' = []
        | Err e \<Rightarrow> False
        | Panic \<Rightarrow> False"
    by code_simp
  then have "\<exists>st'. processEntry exOctopusStore ?W [] exEmptyState exOctopusEntry = Ok st' \<and>
          resultNodes st' = [(''f'', FullCommit exOctopus)] \<and> heap st' = []"
    by (auto split: result.splits)
  moreover have "getLastCommitForPaths 2 exOctopusStore ?W (FullCommit exOctopus) [] [''f''] =
                   Some (Ok [(''f'', exOctopus)])"
    by code_simp
  ultimately show ?thesis by blast
qed











lemma loadParents_first:
  "loadParents index c [0] = Ok parents \<Longrightarrow> ParentNode index c 0 = Ok p \<Longrightarrow> parents = [p]"
  by simp







lemma searchLoop_empty: "heap st = [] \<Longrightarrow> searchLoop (Suc k) s index treePath st = Some (Ok st)"
  by simp
























lemmas exDiamond_defs = exRoot_def exSide_def exOther_def exTop_def exDiamondStore_def
  mkCommit_def mkStore_def

lemma exDiamond_parents:
  "ParentNode (storeWalker exDiamondStore bloom) (FullCommit exTop) i = Ok p \<Longrightarrow>
     p = FullCommit exSide \<or> p = FullCommit exOther"
  "ParentNode (storeWalker exDiamondStore bloom) (FullCommit exSide) i = Ok p \<Longrightarrow>
     p = FullCommit exRoot"
  "ParentNode (storeWalker exDiamondStore bloom) (FullCommit exOther) i = Ok p \<Longrightarrow>
     p = FullCommit exRoot"
  "ParentNode (storeWalker exDiamondStore bloom) (FullCommit exRoot) i \<noteq> Ok p"
proof -
  show "ParentNode (storeWalker exDiamondStore bloom) (FullCommit exTop) i = Ok p \<Longrightarrow>
     p = FullCommit exSide \<or> p = FullCommit exOther"
  proof -
    assume a: "ParentNode (storeWalker exDiamondStore bloom) (FullCommit exTop) i = Ok p"
    then have "i = 0 \<or> i = 1"
      by (auto simp: storeWalker_ParentNode_FullCommit exTop_def mkCommit_def split: if_splits)
    with a show ?thesis
      by (auto simp: storeWalker_ParentNode_FullCommit GetCommit_def exDiamond_defs)
  qed
  show "ParentNode (storeWalker exDiamondStore bloom) (FullCommit exSide) i = Ok p \<Longrightarrow>
     p = FullCommit exRoot"
    by (auto simp: storeWalker_ParentNode_FullCommit GetCommit_def exDiamond_defs
          split: if_splits result.splits)
  show "ParentNode (storeWalker exDiamondStore bloom) (FullCommit exOther) i = Ok p \<Longrightarrow>
     p = FullCommit exRoot"
    by (auto simp: storeWalker_ParentNode_FullCommit GetCommit_def exDiamond_defs
          split: if_splits result.splits)
  show "ParentNode (storeWalker exDiamondStore bloom) (FullCommit exRoot) i \<noteq> Ok p"
    by (simp add: storeWalker_ParentNode_FullCommit exRoot_def mkCommit_def)
qed

lemma exDiamond_ancestors:
  "ancestor (storeWalker exDiamondStore bloom) (FullCommit exTop) a \<Longrightarrow>
     a = FullCommit exTop \<or> a = FullCommit exSide \<or> a = FullCommit exOther \<or> a = FullCommit exRoot"
proof (induction rule: ancestor.induct)
  case ancestor_self
  then show ?case by simp
next
  case (ancestor_parent a i p)
  then show ?case
    using exDiamond_parents [of bloom i p] by blast
qed

lemma exDiamond_sound:
  "bloomSound exDiamondStore (storeWalker exDiamondStore exDiamondBloom) [] ps (FullCommit exTop)"
  unfolding bloomSound_def
proof (intro allI impI)
  let ?W = "storeWalker exDiamondStore exDiamondBloom"
  fix a b
  assume anc: "ancestor ?W (FullCommit exTop) a" and np: "NumParents ?W a = 1"
    and bf: "BloomFilter ?W a = Some b"
  have nps: "NumParents ?W (FullCommit exTop) = 2" "NumParents ?W (FullCommit exRoot) = 0"
    by (simp_all add: storeWalker_def NewGraphCommitNodeIndex_def graph_NumParents_def Let_def
          exTop_def exRoot_def mkCommit_def)
  from exDiamond_ancestors [OF anc] np nps
  consider "a = FullCommit exSide" | "a = FullCommit exOther" by fastforce
  then show "\<exists>p. ParentNode ?W a 0 = Ok p \<and>
            (\<forall>path \<in> set ps. \<not> b (fullPath [] path) \<longrightarrow>
               contentAt exDiamondStore a [] path = contentAt exDiamondStore p [] path)"
  proof cases
    case 1
    have "ParentNode ?W (FullCommit exSide) 0 = Ok (FullCommit exRoot)"
      by (simp add: storeWalker_ParentNode_FullCommit GetCommit_def exDiamond_defs)
    moreover have "contentAt exDiamondStore (FullCommit exSide) [] path =
                   contentAt exDiamondStore (FullCommit exRoot) [] path" for path
      by (simp add: contentAt_def getFileHashes_def getCommitTree_def CommitNode_Tree_def
            GetTree_def exDiamond_defs)
    ultimately show ?thesis using 1 by simp
  next
    case 2
    have "ParentNode ?W (FullCommit exOther) 0 = Ok (FullCommit exRoot)"
      by (simp add: storeWalker_ParentNode_FullCommit GetCommit_def exDiamond_defs)
    moreover from bf 2 have "b = (\<lambda>path. True)"
      by (simp add: storeWalker_def NewGraphCommitNodeIndex_def Let_def exDiamondBloom_def
            ID_def exOther_def mkCommit_def)
    ultimately show ?thesis using 2 by simp
  qed
qed

text \<open>
  Why the comparison above is stated for linear histories. On the diamond all filters are
  sound and \<open>f\<close> is there in the starting commit, yet the search with the fast path loses
  \<open>f\<close>: commit 3 gets a frontier entry with no active path, the fast path passes that
  empty entry on to the root, and the root is marked as seen through it before the entry
  that carries \<open>f\<close> arrives. The search without the fast path answers the root.
\<close>

lemma bloom_fast_path_diamond:
  "bloomSound exDiamondStore (storeWalker exDiamondStore exDiamondBloom) [] [''f''] (FullCommit exTop) \<and>
   pathsPresent exDiamondStore (FullCommit exTop) [] [''f''] \<and>
   getLastCommitForPaths 7 exDiamondStore (storeWalker exDiamondStore exDiamondBloom)
       (FullCommit exTop) [] [''f''] = Some (Ok []) \<and>
   getLastCommitForPaths 7 exDiamondStore
       (withoutBloomFilters (storeWalker exDiamondStore exDiamondBloom))
       (FullCommit exTop) [] [''f''] = Some (Ok [(''f'', exRoot)])"
proof -
  have "pathsPresent exDiamondStore (FullCommit exTop) [] [''f'']"
    by (simp add: pathsPresent_def contentAt_def getFileHashes_def getCommitTree_def
          CommitNode_Tree_def GetTree_def exDiamond_defs fileTree_def mapGet_def ZeroHash_def)
  moreover have "getLastCommitForPaths 7 exDiamondStore (storeWalker exDiamondStore exDiamondBloom)
       (FullCommit exTop) [] [''f''] = Some (Ok [])"
    by code_simp
  moreover have "getLastCommitForPaths 7 exDiamondStore
       (withoutBloomFilters (storeWalker exDiamondStore exDiamondBloom))
       (FullCommit exTop) [] [''f''] = Some (Ok [(''f'', exRoot)])"
    by code_simp
  ultimately show ?thesis using exDiamond_sound by simp
qed

end
